theory Spec2Isabelle
  imports Main
begin

section \<open>Kirk Cataloger: the playlist enrichment server (backend/server.py)\<close>

text \<open>
  The server keeps all of its state in a shared key-value store (Redis) and shares it
  with concurrent requests. The embedding follows the source function by function:
  \<^item> every store command is a step on an explicit \<open>world\<close>: the store, a counter of the
    commands sent so far and the log of what the code has done;
  \<^item> other requests (and key expiry) act on the store between two commands of the code
    under study; they are an arbitrary function \<open>env\<close> from the command counter to a
    store transformer, and \<open>quiet\<close> is the environment in which nobody else acts;
  \<^item> exceptions are branches: \<open>PlaylistError\<close> is a value, a failing collaborator is a
    constructor of its reply;
  \<^item> wall-clock time is left out: the \<open>timestamp\<close> field of a progress record and the
    expiry of keys are not in the records (expiry is one of the things \<open>env\<close> may do);
    the store itself is taken to answer every command.
  A string is a list of characters, and a character is a code point of the Python
  string below 256 (ASCII and Latin-1): text with other code points is outside the type.
\<close>

subsection \<open>Errors\<close>

datatype error = PlaylistError (message: string) (status_code: nat)

subsection \<open>filterPlaylistId\<close>

text \<open>The character class \<^verbatim>\<open>[a-zA-Z0-9_-]\<close>.\<close>

definition id_char :: "char \<Rightarrow> bool" where
  "id_char c \<longleftrightarrow>
     c \<in> set ''abcdefghijklmnopqrstuvwxyzABCDEFGHIJKLMNOPQRSTUVWXYZ0123456789_-''"

text \<open>
  \<^verbatim>\<open>re.search(r'list=([a-zA-Z0-9_-]+)', url)\<close>: \<open>match_here\<close> is the pattern anchored at
  the head of the string (the group is greedy, and nothing follows it in the pattern, so
  it is the longest run of class characters); \<open>re_search\<close> tries every start position
  from the left and returns group 1 of the first match.
\<close>

definition match_here :: "string \<Rightarrow> string option" where
  "match_here s =
     (if take 5 s = ''list='' \<and> takeWhile id_char (drop 5 s) \<noteq> []
      then Some (takeWhile id_char (drop 5 s)) else None)"

fun re_search :: "string \<Rightarrow> string option" where
  "re_search [] = None"
| "re_search (c # cs) =
     (case match_here (c # cs) of Some g \<Rightarrow> Some g | None \<Rightarrow> re_search cs)"

definition filterPlaylistId :: "string \<Rightarrow> error + string" where
  "filterPlaylistId url =
     (case re_search url of
        None \<Rightarrow> Inl (PlaylistError ''Invalid YouTube playlist URL'' 400)
      | Some g \<Rightarrow> Inr g)"

text \<open>
  The words of the specification: a \<^verbatim>\<open>list=<id>\<close> token starts at position \<open>i\<close> of the URL
  when the five characters \<^verbatim>\<open>list=\<close> stand there and a class character follows them.
\<close>

definition token_at :: "string \<Rightarrow> nat \<Rightarrow> bool" where
  "token_at url i \<longleftrightarrow>
     take 5 (drop i url) = ''list='' \<and>
     (case drop (i + 5) url of [] \<Rightarrow> False | c # _ \<Rightarrow> id_char c)"

subsection \<open>Catalog entries\<close>

text \<open>
  The \<open>date\<close> of an entry is \<open>None\<close> or a year when it comes from \<open>filterDate\<close>, and the
  date text of the release once the entry is enriched.
\<close>

datatype date_field = NoDate | Year int | DateText string

record entry =
  position :: int
  score :: int
  title :: string
  artist :: string
  date :: date_field
  type' :: string
  mbid :: string
  ytname :: string
  ytlink :: string
  channel :: string

subsection \<open>The shared store\<close>

type_synonym pid = string

record progress =
  status :: string
  currentItem :: nat
  totalItems :: nat
  activeConnections :: int

text \<open>
  The three key families \<^verbatim>\<open>catalog:<id>\<close>, \<^verbatim>\<open>progress:<id>\<close> and \<^verbatim>\<open>connections:<id>\<close>
  have different prefixes, so they never share a key: three maps.
\<close>

record store =
  catalogs :: "pid \<rightharpoonup> entry list"
  progresses :: "pid \<rightharpoonup> progress"
  connections :: "pid \<rightharpoonup> int"

datatype event =
    Get_catalog pid "entry list option"
  | Get_progress pid "progress option"
  | Get_connections pid "int option"
  | Setex_catalog pid "entry list"
  | Setex_progress pid progress
  | Delete_catalog pid
  | Delete_progress pid
  | Delete_connections pid
  | Incr_connections pid int
  | Decr_connections pid int
  | Youtube_list pid "string option"
  | Search_releases string
  | Sleep

type_synonym env = "nat \<Rightarrow> store \<Rightarrow> store"

record world =
  db :: store
  tick :: nat
  log :: "event list"

definition quiet :: env where
  "quiet = (\<lambda>n s. s)"

text \<open>
  A command reaches the store after whatever the other clients did since the previous
  one; \<open>emit\<close> records what the code did.
\<close>

definition command :: "env \<Rightarrow> world \<Rightarrow> world" where
  "command env w = w\<lparr>db := env (tick w) (db w), tick := Suc (tick w)\<rparr>"

definition emit :: "event \<Rightarrow> world \<Rightarrow> world" where
  "emit e w = w\<lparr>log := log w @ [e]\<rparr>"

definition saveCatalog :: "env \<Rightarrow> pid \<Rightarrow> entry list \<Rightarrow> world \<Rightarrow> world" where
  "saveCatalog env playlistId catalog w =
     (let w1 = command env w in
      emit (Setex_catalog playlistId catalog)
        (w1\<lparr>db := (db w1)\<lparr>catalogs := (catalogs (db w1))(playlistId \<mapsto> catalog)\<rparr>\<rparr>))"

definition getCatalog :: "env \<Rightarrow> pid \<Rightarrow> world \<Rightarrow> entry list option \<times> world" where
  "getCatalog env playlistId w =
     (let w1 = command env w; catalog = catalogs (db w1) playlistId in
      (catalog, emit (Get_catalog playlistId catalog) w1))"

definition clearCatalog :: "env \<Rightarrow> pid \<Rightarrow> world \<Rightarrow> world" where
  "clearCatalog env playlistId w =
     (let w1 = command env w in
      emit (Delete_catalog playlistId)
        (w1\<lparr>db := (db w1)\<lparr>catalogs := (catalogs (db w1))(playlistId := None)\<rparr>\<rparr>))"

text \<open>
  \<open>saveProgress\<close> sends two commands: the read of the viewer count (an absent key counts
  as 0) and the write of the record that embeds it.
\<close>

definition saveProgress :: "env \<Rightarrow> pid \<Rightarrow> nat \<Rightarrow> nat \<Rightarrow> string \<Rightarrow> world \<Rightarrow> world" where
  "saveProgress env playlistId current_item total_items status' w =
     (let w1 = command env w;
          activeConns = connections (db w1) playlistId;
          w2 = command env (emit (Get_connections playlistId activeConns) w1);
          r = \<lparr>status = status', currentItem = current_item, totalItems = total_items,
               activeConnections = (case activeConns of None \<Rightarrow> 0 | Some n \<Rightarrow> n)\<rparr>
      in emit (Setex_progress playlistId r)
           (w2\<lparr>db := (db w2)\<lparr>progresses := (progresses (db w2))(playlistId \<mapsto> r)\<rparr>\<rparr>))"

definition getProgress :: "env \<Rightarrow> pid \<Rightarrow> world \<Rightarrow> progress option \<times> world" where
  "getProgress env playlistId w =
     (let w1 = command env w; p = progresses (db w1) playlistId in
      (p, emit (Get_progress playlistId p) w1))"

definition clearProgress :: "env \<Rightarrow> pid \<Rightarrow> world \<Rightarrow> world" where
  "clearProgress env playlistId w =
     (let w1 = command env w;
          w2 = emit (Delete_progress playlistId)
                 (w1\<lparr>db := (db w1)\<lparr>progresses := (progresses (db w1))(playlistId := None)\<rparr>\<rparr>);
          w3 = command env w2;
          w4 = emit (Delete_connections playlistId)
                 (w3\<lparr>db := (db w3)\<lparr>connections := (connections (db w3))(playlistId := None)\<rparr>\<rparr>)
      in clearCatalog env playlistId w4)"

text \<open>\<^verbatim>\<open>INCR\<close> and \<^verbatim>\<open>DECR\<close> read an absent key as 0 and return the new value.\<close>

definition incrementConnections :: "env \<Rightarrow> pid \<Rightarrow> world \<Rightarrow> int \<times> world" where
  "incrementConnections env playlistId w =
     (let w1 = command env w;
          n = (case connections (db w1) playlistId of None \<Rightarrow> 0 | Some k \<Rightarrow> k) + 1
      in (n, emit (Incr_connections playlistId n)
               (w1\<lparr>db := (db w1)\<lparr>connections := (connections (db w1))(playlistId \<mapsto> n)\<rparr>\<rparr>)))"

definition decrementConnections :: "env \<Rightarrow> pid \<Rightarrow> world \<Rightarrow> int \<times> world" where
  "decrementConnections env playlistId w =
     (let w1 = command env w;
          current = (case connections (db w1) playlistId of None \<Rightarrow> 0 | Some k \<Rightarrow> k) - 1;
          w2 = emit (Decr_connections playlistId current)
                 (w1\<lparr>db := (db w1)\<lparr>connections := (connections (db w1))(playlistId \<mapsto> current)\<rparr>\<rparr>)
      in if current \<le> 0 then
           (let w3 = command env w2;
                w4 = emit (Delete_connections playlistId)
                       (w3\<lparr>db := (db w3)\<lparr>connections := (connections (db w3))(playlistId := None)\<rparr>\<rparr>);
                (p, w5) = getProgress env playlistId w4
            in case p of
                 None \<Rightarrow> (current, w5)
               | Some r \<Rightarrow>
                   if status r \<noteq> ''completed'' then (current, clearProgress env playlistId w5)
                   else (current, w5))
         else (current, w2))"

subsection \<open>filterDate, filterType, artistFormat\<close>

text \<open>
  \<^verbatim>\<open>\w\<close> and \<^verbatim>\<open>\d\<close> of Python's \<^verbatim>\<open>re\<close> on \<^verbatim>\<open>str\<close>, which follow the Unicode database. On
  the code points below 256, \<^verbatim>\<open>\w\<close> is the ASCII letters, digits and underscore, the
  letters of Latin-1 (U+00AA, U+00B5, U+00BA, U+00C0 to U+00FF without the signs U+00D7
  and U+00F7) and its numeric characters (U+00B2, U+00B3, U+00B9, U+00BC to U+00BE);
  \<^verbatim>\<open>\d\<close> is the ASCII digits; and under \<^verbatim>\<open>re.IGNORECASE\<close> an ASCII letter of a pattern
  matches its two ASCII cases only. A word boundary \<^verbatim>\<open>\b\<close> in front of a word character
  holds when the character before it is not a word character (or there is none), and
  after a word character when the next one is not a word character (or there is none);
  the searches carry \<open>prev\<close>, whether the previous character is a word character.
\<close>

definition word_char :: "char \<Rightarrow> bool" where
  "word_char c \<longleftrightarrow>
     c \<in> set ''abcdefghijklmnopqrstuvwxyzABCDEFGHIJKLMNOPQRSTUVWXYZ0123456789_'' \<or>
     (of_char c :: nat) \<in> set [170, 178, 179, 181, 185, 186, 188, 189, 190] \<or>
     (192 \<le> (of_char c :: nat) \<and> (of_char c :: nat) \<noteq> 215 \<and> (of_char c :: nat) \<noteq> 247)"

definition digit :: "char \<Rightarrow> bool" where
  "digit c \<longleftrightarrow> c \<in> set ''0123456789''"

definition digit_val :: "char \<Rightarrow> int" where
  "digit_val c =
     (case map_of (zip ''0123456789'' [0, 1, 2, 3, 4, 5, 6, 7, 8, 9]) c of
        Some d \<Rightarrow> d | None \<Rightarrow> 0)"

definition py_int :: "string \<Rightarrow> int" where
  "py_int s = foldl (\<lambda>n c. 10 * n + digit_val c) 0 s"

text \<open>\<^verbatim>\<open>\b(19|20)\d{2}\b\<close> anchored at the head of the string, the boundary in front apart.\<close>

definition year_here :: "string \<Rightarrow> bool" where
  "year_here s \<longleftrightarrow>
     (take 2 s = ''19'' \<or> take 2 s = ''20'') \<and>
     (case drop 2 s of
        a # b # rest \<Rightarrow>
          digit a \<and> digit b \<and> (case rest of [] \<Rightarrow> True | c # _ \<Rightarrow> \<not> word_char c)
      | _ \<Rightarrow> False)"

fun date_search :: "bool \<Rightarrow> string \<Rightarrow> string option" where
  "date_search prev [] = None"
| "date_search prev (c # cs) =
     (if \<not> prev \<and> year_here (c # cs) then Some (take 4 (c # cs))
      else date_search (word_char c) cs)"

definition filterDate :: "string \<Rightarrow> int option" where
  "filterDate s =
     (case date_search False s of
        None \<Rightarrow> None
      | Some g \<Rightarrow> if 1900 \<le> py_int g \<and> py_int g \<le> 2024 then Some (py_int g) else None)"

definition lower :: "char \<Rightarrow> char" where
  "lower c =
     (case map_of (zip ''ABCDEFGHIJKLMNOPQRSTUVWXYZ'' ''abcdefghijklmnopqrstuvwxyz'') c of
        Some d \<Rightarrow> d | None \<Rightarrow> c)"

text \<open>
  \<^verbatim>\<open>\b(?:w1|w2)\b\<close> with \<^verbatim>\<open>re.IGNORECASE\<close>, the words given in lower case: \<open>word_here\<close>
  is one word and the boundary after it, anchored at the head of the string.
\<close>

definition word_here :: "string \<Rightarrow> string \<Rightarrow> bool" where
  "word_here w s \<longleftrightarrow>
     map lower (take (length w) s) = w \<and>
     (case drop (length w) s of [] \<Rightarrow> True | c # _ \<Rightarrow> \<not> word_char c)"

fun word_search :: "string list \<Rightarrow> bool \<Rightarrow> string \<Rightarrow> bool" where
  "word_search ws prev [] = False"
| "word_search ws prev (c # cs) =
     ((\<not> prev \<and> list_ex (\<lambda>w. word_here w (c # cs)) ws) \<or> word_search ws (word_char c) cs)"

definition filterType :: "string \<Rightarrow> string" where
  "filterType s =
     (if word_search [''album'', ''lp''] False s then ''Album''
      else if word_search [''ep''] False s then ''EP''
      else if word_search [''single''] False s then ''Single''
      else ''Unknown'')"

record credit =
  name :: "string option"
  joinphrase :: "string option"

definition artistFormat :: "credit list \<Rightarrow> string" where
  "artistFormat data =
     (if data = [] then ''''
      else concat (map (\<lambda>c. (case name c of None \<Rightarrow> '''' | Some n \<Rightarrow> n) @
                             (case joinphrase c of None \<Rightarrow> '''' | Some j \<Rightarrow> j)) data))"

subsection \<open>The collaborators\<close>

text \<open>
  The playlist API answers a request for a page (a playlist identifier and a page token)
  with a page, or the request raises (\<open>None\<close>); a response that lacks a field the code
  reads raises as well.
\<close>

record yt_item =
  snippet_position :: int
  snippet_title :: string
  videoId :: string
  channelTitle :: string

record yt_page =
  items :: "yt_item list"
  nextPageToken :: "string option"

type_synonym youtube = "pid \<Rightarrow> string option \<Rightarrow> yt_page option"

text \<open>
  A release of the metadata service: every field is read with \<^verbatim>\<open>.get(key, default)\<close>, so
  every field may be missing. \<open>primary_type\<close> is the \<^verbatim>\<open>primary-type\<close> of the
  \<^verbatim>\<open>release-group\<close>, missing when either is. The score is a number; its conversion with
  \<^verbatim>\<open>float\<close> is not modelled further.
\<close>

record release =
  ext_score :: "int option"
  release_title :: "string option"
  artist_credit :: "credit list option"
  release_date :: "string option"
  primary_type :: "string option"
  release_id :: "string option"

text \<open>
  The search for the entry at index \<open>idx\<close> with the entry's title as query: it raises
  (the call itself, or the reading of its result), or it gives the list of releases
  (empty when the result is empty or has no \<^verbatim>\<open>release-list\<close>).
\<close>

datatype mb_reply = Search_raises | Search_result "release list"

type_synonym musicbrainz = "nat \<Rightarrow> string \<Rightarrow> mb_reply"

subsection \<open>playlistData\<close>

definition entry_of :: "yt_item \<Rightarrow> entry" where
  "entry_of item =
     \<lparr>position = snippet_position item,
      score = 0,
      title = '''',
      artist = '''',
      date = (case filterDate (snippet_title item) of None \<Rightarrow> NoDate | Some y \<Rightarrow> Year y),
      type' = filterType (snippet_title item),
      mbid = '''',
      ytname = snippet_title item,
      ytlink = ''https://www.youtube.com/watch?v='' @ videoId item,
      channel = channelTitle item\<rparr>"

text \<open>
  The \<^verbatim>\<open>while True\<close> loop over the pages. It ends when a request raises (the result is
  \<open>None\<close>, as the \<^verbatim>\<open>except\<close> returns) or when a page has no next token (an empty token
  is falsy too); against an API that hands out tokens forever it does not return, which
  is the value \<open>None\<close> of the outer option.
\<close>

partial_function (option) playlistPages ::
  "youtube \<Rightarrow> pid \<Rightarrow> string option \<Rightarrow> entry list \<Rightarrow> world \<Rightarrow> (entry list option \<times> world) option"
where
  "playlistPages yt playlistId pageToken catalog w =
     (case yt playlistId pageToken of
        None \<Rightarrow> Some (None, emit (Youtube_list playlistId pageToken) w)
      | Some playlistResponse \<Rightarrow>
          (if nextPageToken playlistResponse = None \<or> nextPageToken playlistResponse = Some ''''
           then Some (Some (catalog @ map entry_of (items playlistResponse)),
                      emit (Youtube_list playlistId pageToken) w)
           else playlistPages yt playlistId (nextPageToken playlistResponse)
                  (catalog @ map entry_of (items playlistResponse))
                  (emit (Youtube_list playlistId pageToken) w)))"

definition playlistData ::
  "youtube \<Rightarrow> pid \<Rightarrow> world \<Rightarrow> (entry list option \<times> world) option" where
  "playlistData yt playlistId w = playlistPages yt playlistId None [] w"

subsection \<open>processPlaylist\<close>

text \<open>\<^verbatim>\<open>item.update({...})\<close> with the fields of the best match.\<close>

definition item_update :: "release \<Rightarrow> entry \<Rightarrow> entry" where
  "item_update bestMatch item =
     item\<lparr>score := (case ext_score bestMatch of None \<Rightarrow> 0 | Some x \<Rightarrow> x),
          title := (case release_title bestMatch of None \<Rightarrow> '''' | Some t \<Rightarrow> t),
          artist := artistFormat (case artist_credit bestMatch of None \<Rightarrow> [] | Some cs \<Rightarrow> cs),
          date := DateText (case release_date bestMatch of None \<Rightarrow> '''' | Some d \<Rightarrow> d),
          type' := (case primary_type bestMatch of None \<Rightarrow> ''Unknown'' | Some t \<Rightarrow> t),
          mbid := (case release_id bestMatch of None \<Rightarrow> '''' | Some i \<Rightarrow> i)\<rparr>"

text \<open>
  The first half of the inner \<^verbatim>\<open>try\<close> block, up to the update of the item: \<open>None\<close> when
  the search raises, which leaves the block for its \<^verbatim>\<open>except ...: continue\<close>; the item
  (updated when there is a best match) otherwise. The dictionary of the update is built
  before \<^verbatim>\<open>item.update\<close> runs, so an exception leaves the item as it was.
\<close>

definition lookup :: "musicbrainz \<Rightarrow> nat \<Rightarrow> entry \<Rightarrow> world \<Rightarrow> entry option \<times> world" where
  "lookup mb idx item w =
     (if ytname item \<notin> set [''Deleted video'', ''Private video''] then
        (case mb idx (ytname item) of
           Search_raises \<Rightarrow> (None, emit (Search_releases (ytname item)) w)
         | Search_result rs \<Rightarrow>
             (Some (case rs of [] \<Rightarrow> item | bestMatch # _ \<Rightarrow> item_update bestMatch item),
              emit (Search_releases (ytname item)) w))
      else (Some item, w))"

text \<open>
  \<^verbatim>\<open>for idx, item in enumerate(catalog)\<close>: the items still to come, the index of the first
  of them, and the catalog as the loop has updated it so far. The result is \<open>None\<close> when
  the loop returns \<open>None\<close> (the run is cancelled), the catalog when the loop is exhausted.
\<close>

fun enrichLoop ::
  "env \<Rightarrow> musicbrainz \<Rightarrow> pid \<Rightarrow> nat \<Rightarrow> nat \<Rightarrow> entry list \<Rightarrow> entry list \<Rightarrow> world
     \<Rightarrow> entry list option \<times> world"
where
  "enrichLoop env mb playlistId total_items idx [] catalog w = (Some catalog, w)"
| "enrichLoop env mb playlistId total_items idx (item # rest) catalog w =
     (case getProgress env playlistId w of
        (p, w1) \<Rightarrow>
          if (case p of None \<Rightarrow> True | Some r \<Rightarrow> activeConnections r \<le> 0) then (None, w1)
          else
            (case lookup mb idx item w1 of
               (None, w2) \<Rightarrow> enrichLoop env mb playlistId total_items (Suc idx) rest catalog w2
             | (Some item', w2) \<Rightarrow>
                 enrichLoop env mb playlistId total_items (Suc idx) rest (catalog[idx := item'])
                   (emit Sleep
                     (saveProgress env playlistId (idx + 1) total_items ''processing''
                       (saveCatalog env playlistId (catalog[idx := item']) w2)))))"

text \<open>
  The run. A failed or empty fetch raises inside the outer \<^verbatim>\<open>try\<close>, whose handler clears
  all state and returns \<open>None\<close>. The outer option is \<open>None\<close> when the fetch does not return.
\<close>

definition processPlaylist ::
  "env \<Rightarrow> youtube \<Rightarrow> musicbrainz \<Rightarrow> pid \<Rightarrow> world \<Rightarrow> (entry list option \<times> world) option" where
  "processPlaylist env yt mb playlistId w =
     (case playlistData yt playlistId w of
        None \<Rightarrow> None
      | Some (None, w1) \<Rightarrow> Some (None, clearProgress env playlistId w1)
      | Some (Some catalog, w1) \<Rightarrow>
          if catalog = [] then Some (None, clearProgress env playlistId w1)
          else
            (case enrichLoop env mb playlistId (length catalog) 0 catalog catalog
                    (saveProgress env playlistId 0 (length catalog) ''processing'' w1) of
               (None, w2) \<Rightarrow> Some (None, w2)
             | (Some catalog', w2) \<Rightarrow>
                 Some (Some catalog',
                       saveProgress env playlistId (length catalog) (length catalog)
                         ''completed'' w2)))"

subsection \<open>The start-run handler\<close>

text \<open>
  The request body is the \<^verbatim>\<open>playlistUrl\<close> it carries, if any. The responses: the cached
  result (\<^verbatim>\<open>success, playlistId, status = completed, data\<close>), the plain acknowledgement
  (\<^verbatim>\<open>success, playlistId\<close>), or an error message with its HTTP status.
\<close>

datatype response =
    Completed_json pid "entry list"
  | Started_json pid
  | Error_json string nat

definition startProcess ::
  "env \<Rightarrow> youtube \<Rightarrow> musicbrainz \<Rightarrow> string option \<Rightarrow> world \<Rightarrow> (response \<times> world) option" where
  "startProcess env yt mb playlistUrl w =
     (case playlistUrl of
        None \<Rightarrow> Some (Error_json ''Please provide a playlistUrl'' 400, w)
      | Some url \<Rightarrow>
          (case filterPlaylistId url of
             Inl pe \<Rightarrow> Some (Error_json (message pe) (status_code pe), w)
           | Inr playlistId \<Rightarrow>
               (case getCatalog env playlistId w of
                  (existingCatalog, w1) \<Rightarrow>
                    (case getProgress env playlistId w1 of
                       (existingProgress, w2) \<Rightarrow>
                         if existingCatalog \<noteq> None \<and> existingCatalog \<noteq> Some [] \<and>
                            existingProgress \<noteq> None \<and>
                            map_option status existingProgress = Some ''completed''
                         then Some (Completed_json playlistId (the existingCatalog),
                                    snd (incrementConnections env playlistId w2))
                         else
                           (case processPlaylist env yt mb playlistId
                                   (snd (incrementConnections env playlistId
                                          (clearProgress env playlistId w2))) of
                              None \<Rightarrow> None
                            | Some (r, w3) \<Rightarrow> Some (Started_json playlistId, w3))))))"

subsection \<open>Notions used in the statements\<close>

text \<open>
  The events a piece of code logged between two worlds, the Progress Records among
  them, what the cancellation check of the run tests, and the shapes of a log and of a
  catalog that the proofs about the loop carry along. \<open>attach_detach\<close> and \<open>perform\<close> run
  the viewer operations one after the other with nobody else acting. The worlds and
  collaborators named \<open>demo\<close> and the like are the concrete inputs of the examples: a
  playlist of three items whose second one is a private video.
\<close>

definition trace_from :: "world \<Rightarrow> world \<Rightarrow> event list" where
  "trace_from w w' = drop (length (log w)) (log w')"

fun progress_writes :: "pid \<Rightarrow> event list \<Rightarrow> progress list" where
  "progress_writes p [] = []"
| "progress_writes p (Setex_progress q r # es) =
     (if q = p then r # progress_writes p es else progress_writes p es)"
| "progress_writes p (e # es) = progress_writes p es"

definition cancelled :: "progress option \<Rightarrow> bool" where
  "cancelled p = (case p of None \<Rightarrow> True | Some r \<Rightarrow> activeConnections r \<le> 0)"

fun stops_at_cancel :: "event list \<Rightarrow> bool" where
  "stops_at_cancel [] = True"
| "stops_at_cancel (Get_progress q r # es) = (if cancelled r then es = [] else stops_at_cancel es)"
| "stops_at_cancel (e # es) = stops_at_cancel es"

definition removed :: "entry \<Rightarrow> bool" where
  "removed item \<longleftrightarrow> ytname item \<in> set [''Deleted video'', ''Private video'']"

definition best :: "release list \<Rightarrow> entry \<Rightarrow> entry" where
  "best rs item = (case rs of [] \<Rightarrow> item | bestMatch # _ \<Rightarrow> item_update bestMatch item)"

definition checked :: "env \<Rightarrow> pid \<Rightarrow> world \<Rightarrow> world" where
  "checked env p w = emit (Get_progress p (progresses (env (tick w) (db w)) p)) (command env w)"

definition persisted :: "env \<Rightarrow> pid \<Rightarrow> nat \<Rightarrow> nat \<Rightarrow> entry list \<Rightarrow> world \<Rightarrow> world" where
  "persisted env p n idx catalog w =
     emit Sleep (saveProgress env p (idx + 1) n ''processing'' (saveCatalog env p catalog w))"

definition no_cancel :: "event list \<Rightarrow> bool" where
  "no_cancel evs \<longleftrightarrow> (\<forall>q r. Get_progress q r \<in> set evs \<longrightarrow> \<not> cancelled r)"

definition cancel_shape :: "pid \<Rightarrow> entry list option \<Rightarrow> event list \<Rightarrow> bool" where
  "cancel_shape p res evs \<longleftrightarrow>
     (case res of Some c \<Rightarrow> no_cancel evs
      | None \<Rightarrow> \<exists>pre r. evs = pre @ [Get_progress p r] \<and> cancelled r \<and> no_cancel pre)"

definition keeps :: "nat \<Rightarrow> entry list \<Rightarrow> entry list \<Rightarrow> bool" where
  "keeps idx catalog c \<longleftrightarrow>
     length c = length catalog \<and> (\<forall>j<idx. c ! j = catalog ! j) \<and>
     (\<forall>j. idx \<le> j \<and> j < length catalog \<and> removed (catalog ! j) \<longrightarrow> c ! j = catalog ! j)"

definition viewer_ok :: "world \<Rightarrow> pid \<Rightarrow> bool" where
  "viewer_ok w q \<longleftrightarrow> (case connections (db w) q of None \<Rightarrow> True | Some n \<Rightarrow> 0 < n)"

definition attach_detach :: "pid \<Rightarrow> world \<Rightarrow> world" where
  "attach_detach p w =
     snd (decrementConnections quiet p (snd (incrementConnections quiet p w)))"

definition empty_world :: world where
  "empty_world =
     \<lparr>db = \<lparr>catalogs = Map.empty, progresses = Map.empty, connections = Map.empty\<rparr>,
      tick = 0, log = []\<rparr>"

definition watched_world :: world where
  "watched_world =
     \<lparr>db = \<lparr>catalogs = Map.empty, progresses = Map.empty,
             connections = [''PL1'' \<mapsto> 1]\<rparr>,
      tick = 0, log = []\<rparr>"

definition demo_items :: "yt_item list" where
  "demo_items =
     [\<lparr>snippet_position = 0, snippet_title = ''Kid A (Full Album) 2000'', videoId = ''v0'',
        channelTitle = ''ch''\<rparr>,
      \<lparr>snippet_position = 1, snippet_title = ''Private video'', videoId = ''v1'',
        channelTitle = ''ch''\<rparr>,
      \<lparr>snippet_position = 2, snippet_title = ''Blue Monday'', videoId = ''v2'',
        channelTitle = ''ch''\<rparr>]"

definition demo_youtube :: youtube where
  "demo_youtube =
     (\<lambda>p tok. if tok = None then Some \<lparr>items = demo_items, nextPageToken = None\<rparr> else None)"

definition kid_a :: release where
  "kid_a =
     \<lparr>ext_score = Some 100, release_title = Some ''Kid A'',
      artist_credit = Some [\<lparr>name = Some ''Radiohead'', joinphrase = None\<rparr>],
      release_date = Some ''2000-10-02'', primary_type = Some ''Album'',
      release_id = Some ''mbid-1''\<rparr>"

definition demo_musicbrainz :: musicbrainz where
  "demo_musicbrainz = (\<lambda>idx s. if idx = 0 then Search_result [kid_a] else Search_result [])"

definition failing_musicbrainz :: musicbrainz where
  "failing_musicbrainz = (\<lambda>idx s. if idx = 0 then Search_raises else Search_result [])"

definition teardown_at :: "nat \<Rightarrow> env" where
  "teardown_at k =
     (\<lambda>n s. if n = k then s\<lparr>catalogs := Map.empty, progresses := Map.empty,
                              connections := Map.empty\<rparr> else s)"

definition streaming_world :: world where
  "streaming_world =
     \<lparr>db = \<lparr>catalogs = [''PL1'' \<mapsto> map entry_of demo_items],
             progresses = [''PL1'' \<mapsto> \<lparr>status = ''processing'', currentItem = 1,
                                        totalItems = 3, activeConnections = 1\<rparr>],
             connections = [''PL1'' \<mapsto> 1]\<rparr>,
      tick = 0, log = []\<rparr>"

definition abandoned_world :: world where
  "abandoned_world =
     \<lparr>db = \<lparr>catalogs = [''PL1'' \<mapsto> map entry_of demo_items],
             progresses = [''PL1'' \<mapsto> \<lparr>status = ''processing'', currentItem = 1,
                                        totalItems = 3, activeConnections = 0\<rparr>],
             connections = Map.empty\<rparr>,
      tick = 0, log = []\<rparr>"

definition finished_world :: world where
  "finished_world =
     \<lparr>db = \<lparr>catalogs = [''PL1'' \<mapsto> map entry_of demo_items],
             progresses = [''PL1'' \<mapsto> \<lparr>status = ''completed'', currentItem = 3,
                                        totalItems = 3, activeConnections = 1\<rparr>],
             connections = Map.empty\<rparr>,
      tick = 0, log = []\<rparr>"

definition demo_url :: string where
  "demo_url = ''https://www.youtube.com/playlist?list=PL1''"

definition watch_url :: string where
  "watch_url = ''/watch?v=abc&list=PL_a-1&index=2''"

definition short_url :: string where
  "short_url = ''https://youtu.be/abc?t=10''"

datatype viewer_op = Attach pid | Detach pid | Cancel pid

fun perform :: "viewer_op \<Rightarrow> world \<Rightarrow> world" where
  "perform (Attach p) w = snd (incrementConnections quiet p w)"
| "perform (Detach p) w = snd (decrementConnections quiet p w)"
| "perform (Cancel p) w = clearProgress quiet p w"

definition two_token_url :: string where
  "two_token_url = ''https://x/watch?playlist=abc&list=PL1''"

text \<open>
  Another request's detach whose \<^verbatim>\<open>DECR\<close> on \<^verbatim>\<open>connections:PL1\<close> reaches the store just
  before the next command of the request under study, and whose \<^verbatim>\<open>DELETE\<close> has not
  followed yet.
\<close>

definition racing_detach :: env where
  "racing_detach =
     (\<lambda>n s. if n = 0
            then s\<lparr>connections := (connections s)
                     (''PL1'' \<mapsto> (case connections s ''PL1'' of None \<Rightarrow> 0 | Some k \<Rightarrow> k) - 1)\<rparr>
            else s)"

section \<open>Properties\<close>

subsection \<open>Identifier extraction\<close>

lemma match_here_token: "match_here s = None \<longleftrightarrow> \<not> token_at s 0"
  by (cases "drop 5 s") (auto simp: match_here_def token_at_def)

lemma token_at_Cons [simp]: "token_at (c # cs) (Suc i) = token_at cs i"
  unfolding token_at_def by (simp only: add_Suc drop_Suc_Cons)

lemma re_search_None: "re_search url = None \<longleftrightarrow> (\<forall>i<length url. \<not> token_at url i)"
proof (induction url)
  case Nil
  then show ?case by simp
next
  case (Cons c cs)
  show ?case
  proof (cases "match_here (c # cs)")
    case None
    with Cons match_here_token [of "c # cs"] show ?thesis
      by (simp add: All_less_Suc2)
  next
    case (Some g)
    with match_here_token [of "c # cs"] have "token_at (c # cs) 0" by auto
    with Some show ?thesis by auto
  qed
qed

lemma re_search_skip:
  "\<forall>i<length pre. \<not> token_at (pre @ s) i \<Longrightarrow> re_search (pre @ s) = re_search s"
proof (induction pre)
  case Nil
  then show ?case by simp
next
  case (Cons c pre)
  from Cons.prems have "\<not> token_at (c # pre @ s) 0" by auto
  then have m: "match_here (c # pre @ s) = None" by (simp add: match_here_token)
  from Cons.prems have "\<forall>i<length pre. \<not> token_at (pre @ s) i" by (auto simp: All_less_Suc2)
  from Cons.IH [OF this] m show ?case by simp
qed

lemma match_here_ident:
  assumes "ident \<noteq> []" and "\<forall>c\<in>set ident. id_char c" and "rest = [] \<or> \<not> id_char (hd rest)"
  shows "match_here (''list='' @ ident @ rest) = Some ident"
proof -
  from assms(3) have "takeWhile id_char rest = []" by (cases rest) auto
  with assms(2) have "takeWhile id_char (ident @ rest) = ident"
    by (simp add: takeWhile_append2)
  with assms(1) show ?thesis by (simp add: match_here_def)
qed

lemma re_search_match: "match_here s = Some g \<Longrightarrow> re_search s = Some g"
  by (cases s) (auto simp: match_here_def)

text \<open>
  C9 (as amended). Extraction returns the identifier of the leftmost \<^verbatim>\<open>list=<id>\<close> token
  of the URL: when no token starts before the one that carries \<open>ident\<close> (a non-empty run
  of class characters that ends at the end of the URL or at a character outside the
  class), extraction returns exactly \<open>ident\<close>; when the URL has no such token it raises
  the \<open>PlaylistError\<close> with status code 400.
\<close>

theorem playlist_id_extraction:
  "(url = pre @ ''list='' @ ident @ rest \<and> ident \<noteq> [] \<and> (\<forall>c\<in>set ident. id_char c) \<and>
    (rest = [] \<or> \<not> id_char (hd rest)) \<and> (\<forall>i<length pre. \<not> token_at url i)
      \<longrightarrow> filterPlaylistId url = Inr ident) \<and>
   ((\<forall>i<length url. \<not> token_at url i)
      \<longrightarrow> filterPlaylistId url = Inl (PlaylistError ''Invalid YouTube playlist URL'' 400))"
proof (intro conjI impI)
  assume a: "url = pre @ ''list='' @ ident @ rest \<and> ident \<noteq> [] \<and> (\<forall>c\<in>set ident. id_char c) \<and>
    (rest = [] \<or> \<not> id_char (hd rest)) \<and> (\<forall>i<length pre. \<not> token_at url i)"
  then have u: "url = pre @ ''list='' @ ident @ rest" by blast
  from a have "\<forall>i<length pre. \<not> token_at url i" by blast
  then have nt: "\<forall>i<length pre. \<not> token_at (pre @ ''list='' @ ident @ rest) i"
    unfolding u .
  from a have "match_here (''list='' @ ident @ rest) = Some ident"
    by (intro match_here_ident) blast+
  then have "re_search (''list='' @ ident @ rest) = Some ident"
    by (rule re_search_match)
  with re_search_skip [OF nt] have "re_search url = Some ident"
    unfolding u by (simp only:)
  then show "filterPlaylistId url = Inr ident" by (simp add: filterPlaylistId_def)
next
  assume "\<forall>i<length url. \<not> token_at url i"
  then have "re_search url = None" by (simp add: re_search_None)
  then show "filterPlaylistId url = Inl (PlaylistError ''Invalid YouTube playlist URL'' 400)"
    by (simp add: filterPlaylistId_def)
qed

theorem playlist_id_extraction_witness:
  "watch_url = ''/watch?v=abc&'' @ ''list='' @ ''PL_a-1'' @ ''&index=2'' \<and>
   filterPlaylistId watch_url = Inr ''PL_a-1'' \<and>
   filterPlaylistId short_url = Inl (PlaylistError ''Invalid YouTube playlist URL'' 400)"
proof -
  have u: "watch_url = ''/watch?v=abc&'' @ ''list='' @ ''PL_a-1'' @ ''&index=2''"
    by (simp add: watch_url_def)
  have i: "''PL_a-1'' \<noteq> []" "\<forall>c\<in>set ''PL_a-1''. id_char c"
    "''&index=2'' = [] \<or> \<not> id_char (hd ''&index=2'')"
    by (simp_all add: id_char_def)
  have "\<forall>i\<in>set [0..<13]. \<not> token_at watch_url i" by code_simp
  then have f: "\<forall>i<length ''/watch?v=abc&''. \<not> token_at watch_url i" by simp
  have "\<forall>i\<in>set [0..<25]. \<not> token_at short_url i" by code_simp
  moreover have "length short_url = 25" by (simp add: short_url_def)
  ultimately have n: "\<forall>i<length short_url. \<not> token_at short_url i" by simp
  from playlist_id_extraction [of watch_url "''/watch?v=abc&''" "''PL_a-1''" "''&index=2''"] u i f
  have 1: "filterPlaylistId watch_url = Inr ''PL_a-1''" by blast
  from playlist_id_extraction [of short_url "[]" "[]" "[]"] n
  have 2: "filterPlaylistId short_url = Inl (PlaylistError ''Invalid YouTube playlist URL'' 400)"
    by blast
  from u 1 2 show ?thesis by blast
qed

text \<open>
  C9 as stated fails on a URL with two tokens: \<^verbatim>\<open>playlist=abc\<close> contains the token
  \<^verbatim>\<open>list=abc\<close>, which stands to the left of \<^verbatim>\<open>list=PL1\<close>, and the search returns the
  identifier of the first match.
\<close>

theorem playlist_id_extraction_counterexample:
  "two_token_url = ''https://x/watch?playlist=abc&'' @ ''list='' @ ''PL1'' @ [] \<and>
   list_all id_char ''PL1'' \<and>
   filterPlaylistId two_token_url = Inr ''abc'' \<and>
   filterPlaylistId two_token_url \<noteq> Inr ''PL1''"
  by (simp add: two_token_url_def filterPlaylistId_def match_here_def id_char_def)

subsection \<open>The title filters beyond ASCII\<close>

text \<open>
  A Latin-1 letter next to a year or to a keyword is a word character, so there is no word
  boundary and no match, as in Python; a sign such as U+00D7 is not one.
\<close>

lemma filterDate_latin1:
  "filterDate (''caf'' @ [CHR 0xE9] @ ''2000'') = None \<and>
   filterDate (''caf'' @ [CHR 0xD7] @ ''2000'') = Some 2000 \<and>
   filterDate ''Kid A (Full Album) 2000'' = Some 2000 \<and>
   filterDate ''2025 live 1999'' = None"
  by (simp add: filterDate_def year_here_def word_char_def digit_def py_int_def digit_val_def)

lemma filterType_latin1:
  "filterType (''Demo'' @ [CHR 0xE9] @ ''EP'') = ''Unknown'' \<and>
   filterType (''demo ep'' @ [CHR 0xE8]) = ''Unknown'' \<and>
   filterType ''demo Ep!'' = ''EP'' \<and>
   filterType ''Kid A (Full Album) 2000'' = ''Album''"
  by (simp add: filterType_def word_here_def word_char_def lower_def)

subsection \<open>What the store operations and the loop log\<close>

lemma log_command [simp]: "log (command env w) = log w"
  and db_command [simp]: "db (command env w) = env (tick w) (db w)"
  and tick_command [simp]: "tick (command env w) = Suc (tick w)"
  by (simp_all add: command_def)

lemma log_emit [simp]: "log (emit e w) = log w @ [e]"
  and db_emit [simp]: "db (emit e w) = db w"
  and tick_emit [simp]: "tick (emit e w) = tick w"
  by (simp_all add: emit_def)

lemma log_saveCatalog: "log (saveCatalog env p c w) = log w @ [Setex_catalog p c]"
  by (simp add: saveCatalog_def Let_def)

lemma log_saveProgress:
  "\<exists>r. log (saveProgress env p i n st w) = log w @ [Get_connections p (connections (env (tick w) (db w)) p), Setex_progress p r]
     \<and> status r = st \<and> currentItem r = i \<and> totalItems r = n"
  by (simp add: saveProgress_def Let_def)

lemma getProgress_eq:
  "getProgress env p w = (progresses (env (tick w) (db w)) p,
      emit (Get_progress p (progresses (env (tick w) (db w)) p)) (command env w))"
  by (simp add: getProgress_def Let_def)

lemma log_clearProgress:
  "log (clearProgress env p w) = log w @ [Delete_progress p, Delete_connections p, Delete_catalog p]"
  by (simp add: clearProgress_def clearCatalog_def Let_def)

lemma log_lookup:
  "log (snd (lookup mb idx item w)) = log w @ (if ytname item \<in> set [''Deleted video'', ''Private video''] then [] else [Search_releases (ytname item)])"
  by (simp add: lookup_def split: mb_reply.splits)

lemma progress_writes_append [simp]:
  "progress_writes p (xs @ ys) = progress_writes p xs @ progress_writes p ys"
  by (induction p xs rule: progress_writes.induct) auto

lemma trace_fromI: "log w' = log w @ evs \<Longrightarrow> trace_from w w' = evs"
  by (simp add: trace_from_def)

lemma enrichLoop_Cons:
  "enrichLoop env mb p n idx (item # rest) catalog w =
     (if cancelled (progresses (env (tick w) (db w)) p)
      then (None, emit (Get_progress p (progresses (env (tick w) (db w)) p)) (command env w))
      else
        (case lookup mb idx item (emit (Get_progress p (progresses (env (tick w) (db w)) p)) (command env w)) of
           (None, w2) \<Rightarrow> enrichLoop env mb p n (Suc idx) rest catalog w2
         | (Some item', w2) \<Rightarrow>
             enrichLoop env mb p n (Suc idx) rest (catalog[idx := item'])
               (emit Sleep (saveProgress env p (idx + 1) n ''processing''
                  (saveCatalog env p (catalog[idx := item']) w2)))))"
  by (simp add: getProgress_eq cancelled_def)

declare enrichLoop.simps(2) [simp del]

lemma enrichLoop_induct [consumes 1, case_names Nil Cancel Raise Skip Found]:
  assumes run: "enrichLoop env mb p n idx todo catalog w = (res, w')"
    and Nil: "\<And>idx catalog w. P idx [] catalog w (Some catalog) w"
    and Cancel: "\<And>idx item rest catalog w.
        cancelled (progresses (env (tick w) (db w)) p) \<Longrightarrow>
        P idx (item # rest) catalog w None (checked env p w)"
    and Raise: "\<And>idx item rest catalog w res w'.
        \<not> cancelled (progresses (env (tick w) (db w)) p) \<Longrightarrow> \<not> removed item \<Longrightarrow>
        mb idx (ytname item) = Search_raises \<Longrightarrow>
        P (Suc idx) rest catalog (emit (Search_releases (ytname item)) (checked env p w)) res w' \<Longrightarrow>
        P idx (item # rest) catalog w res w'"
    and Skip: "\<And>idx item rest catalog w res w'.
        \<not> cancelled (progresses (env (tick w) (db w)) p) \<Longrightarrow> removed item \<Longrightarrow>
        P (Suc idx) rest (catalog[idx := item])
          (persisted env p n idx (catalog[idx := item]) (checked env p w)) res w' \<Longrightarrow>
        P idx (item # rest) catalog w res w'"
    and Found: "\<And>idx item rest catalog w rs res w'.
        \<not> cancelled (progresses (env (tick w) (db w)) p) \<Longrightarrow> \<not> removed item \<Longrightarrow>
        mb idx (ytname item) = Search_result rs \<Longrightarrow>
        P (Suc idx) rest (catalog[idx := best rs item])
          (persisted env p n idx (catalog[idx := best rs item])
             (emit (Search_releases (ytname item)) (checked env p w))) res w' \<Longrightarrow>
        P idx (item # rest) catalog w res w'"
  shows "P idx todo catalog w res w'"
  using run
proof (induction todo arbitrary: idx catalog w)
  case Nil
  then show ?case using assms(2) by auto
next
  case (Cons item rest)
  show ?case
  proof (cases "cancelled (progresses (env (tick w) (db w)) p)")
    case True
    with Cons.prems Cancel [OF True] show ?thesis
      by (simp add: enrichLoop_Cons checked_def)
  next
    case live: False
    show ?thesis
    proof (cases "removed item")
      case True
      with live Cons.prems
      have "enrichLoop env mb p n (Suc idx) rest (catalog[idx := item])
              (persisted env p n idx (catalog[idx := item]) (checked env p w)) = (res, w')"
        by (auto simp: enrichLoop_Cons lookup_def removed_def checked_def persisted_def)
      from Skip [OF live True Cons.IH [OF this]] show ?thesis .
    next
      case False
      show ?thesis
      proof (cases "mb idx (ytname item)")
        case Search_raises
        with live False Cons.prems
        have "enrichLoop env mb p n (Suc idx) rest catalog
                (emit (Search_releases (ytname item)) (checked env p w)) = (res, w')"
          by (auto simp: enrichLoop_Cons lookup_def removed_def checked_def)
        from Raise [OF live False Search_raises Cons.IH [OF this]] show ?thesis .
      next
        case (Search_result rs)
        with live False Cons.prems
        have "enrichLoop env mb p n (Suc idx) rest (catalog[idx := best rs item])
                (persisted env p n idx (catalog[idx := best rs item])
                   (emit (Search_releases (ytname item)) (checked env p w))) = (res, w')"
          by (auto simp: enrichLoop_Cons lookup_def removed_def checked_def persisted_def best_def)
        from Found [OF live False Search_result Cons.IH [OF this]] show ?thesis .
      qed
    qed
  qed
qed

lemma log_checked [simp]:
  "log (checked env p w) = log w @ [Get_progress p (progresses (env (tick w) (db w)) p)]"
  by (simp add: checked_def)

lemma log_persisted:
  "\<exists>c r. log (persisted env p n idx catalog w) =
       log w @ [Setex_catalog p catalog, Get_connections p c, Setex_progress p r, Sleep] \<and>
     status r = ''processing'' \<and> currentItem r = Suc idx \<and> totalItems r = n"
  using log_saveProgress [of env p "idx + 1" n "''processing''" "saveCatalog env p catalog w"]
  by (auto simp: persisted_def log_saveCatalog)

lemma loop_progress_writes:
  assumes "enrichLoop env mb p n idx todo catalog w = (res, w')"
  shows "\<exists>evs. log w' = log w @ evs \<and> sorted (map currentItem (progress_writes q evs)) \<and>
     (\<forall>r\<in>set (progress_writes q evs). status r = ''processing'' \<and> idx < currentItem r \<and>
        currentItem r \<le> idx + length todo)"
  using assms
proof (induction rule: enrichLoop_induct)
  case (Nil idx catalog w)
  then show ?case by simp
next
  case (Cancel idx item rest catalog w)
  then show ?case by simp
next
  case (Raise idx item rest catalog w res w')
  then obtain evs where
    "log w' = log w @ [Get_progress p (progresses (env (tick w) (db w)) p), Search_releases (ytname item)] @ evs"
    "sorted (map currentItem (progress_writes q evs))"
    "\<forall>r\<in>set (progress_writes q evs). status r = ''processing'' \<and> Suc idx < currentItem r \<and>
        currentItem r \<le> Suc idx + length rest" by auto
  then show ?case
    by (intro exI [of _ "[Get_progress p (progresses (env (tick w) (db w)) p), Search_releases (ytname item)] @ evs"]) auto
next
  case (Skip idx item rest catalog w res w')
  from log_persisted [of env p n idx "catalog[idx := item]" "checked env p w"] Skip(3)
  obtain c r evs where
    "log w' = log w @ [Get_progress p (progresses (env (tick w) (db w)) p),
        Setex_catalog p (catalog[idx := item]), Get_connections p c, Setex_progress p r, Sleep] @ evs"
    "status r = ''processing''" "currentItem r = Suc idx"
    "sorted (map currentItem (progress_writes q evs))"
    "\<forall>r\<in>set (progress_writes q evs). status r = ''processing'' \<and> Suc idx < currentItem r \<and>
        currentItem r \<le> Suc idx + length rest" by auto
  then show ?case
    by (intro exI [of _ "[Get_progress p (progresses (env (tick w) (db w)) p),
        Setex_catalog p (catalog[idx := item]), Get_connections p c, Setex_progress p r, Sleep] @ evs"])
      (auto simp: less_imp_le)
next
  case (Found idx item rest catalog w rs res w')
  from log_persisted [of env p n idx "catalog[idx := best rs item]"
      "emit (Search_releases (ytname item)) (checked env p w)"] Found(4)
  obtain c r evs where
    "log w' = log w @ [Get_progress p (progresses (env (tick w) (db w)) p), Search_releases (ytname item),
        Setex_catalog p (catalog[idx := best rs item]), Get_connections p c, Setex_progress p r, Sleep] @ evs"
    "status r = ''processing''" "currentItem r = Suc idx"
    "sorted (map currentItem (progress_writes q evs))"
    "\<forall>r\<in>set (progress_writes q evs). status r = ''processing'' \<and> Suc idx < currentItem r \<and>
        currentItem r \<le> Suc idx + length rest" by auto
  then show ?case
    by (intro exI [of _ "[Get_progress p (progresses (env (tick w) (db w)) p), Search_releases (ytname item),
        Setex_catalog p (catalog[idx := best rs item]), Get_connections p c, Setex_progress p r, Sleep] @ evs"])
      (auto simp: less_imp_le)
qed

lemma playlistPages_log:
  assumes "playlistPages yt p tok cat w = Some (r, w1)"
  shows "\<exists>evs. log w1 = log w @ evs \<and> db w1 = db w \<and> tick w1 = tick w \<and>
           (\<forall>e\<in>set evs. \<exists>t. e = Youtube_list p t) \<and>
           (\<forall>c. r = Some c \<longrightarrow> (\<exists>ys. c = cat @ map entry_of ys))"
proof -
  have "\<exists>evs. log (snd y) = log w @ evs \<and> db (snd y) = db w \<and> tick (snd y) = tick w \<and>
           (\<forall>e\<in>set evs. \<exists>t. e = Youtube_list p t) \<and>
           (\<forall>c. fst y = Some c \<longrightarrow> (\<exists>ys. c = cat @ map entry_of ys))"
    if "playlistPages yt p tok cat w = Some y" for y
    using that
  proof (induction yt p tok cat w y rule: playlistPages.raw_induct [rotated 1, consumes 1])
    case (1 f yt p tok cat w y)
    show ?case
    proof (cases "yt p tok")
      case None
      with 1(2) show ?thesis by auto
    next
      case (Some page)
      show ?thesis
      proof (cases "nextPageToken page = None \<or> nextPageToken page = Some []")
        case True
        with Some 1(2) show ?thesis by auto
      next
        case False
        with Some 1(2)
        have "f yt p (nextPageToken page) (cat @ map entry_of (items page))
                (emit (Youtube_list p tok) w) = Some y" by simp
        from 1(1) [OF this] obtain evs where
          "log (snd y) = log w @ Youtube_list p tok # evs" "db (snd y) = db w" "tick (snd y) = tick w"
          "\<forall>e\<in>set evs. \<exists>t. e = Youtube_list p t"
          "\<forall>c. fst y = Some c \<longrightarrow> (\<exists>ys. c = (cat @ map entry_of (items page)) @ map entry_of ys)"
          by auto
        then show ?thesis
          by (intro exI [of _ "Youtube_list p tok # evs"]) (auto simp flip: map_append)
      qed
    qed
  qed
  from this [OF assms] show ?thesis by simp
qed

lemma no_cancel_simps [simp]:
  "no_cancel []"
  "no_cancel (Get_progress q r # es) \<longleftrightarrow> \<not> cancelled r \<and> no_cancel es"
  "no_cancel (Get_catalog q c # es) \<longleftrightarrow> no_cancel es"
  "no_cancel (Get_connections q k # es) \<longleftrightarrow> no_cancel es"
  "no_cancel (Setex_catalog q cat # es) \<longleftrightarrow> no_cancel es"
  "no_cancel (Setex_progress q pr # es) \<longleftrightarrow> no_cancel es"
  "no_cancel (Delete_catalog q # es) \<longleftrightarrow> no_cancel es"
  "no_cancel (Delete_progress q # es) \<longleftrightarrow> no_cancel es"
  "no_cancel (Delete_connections q # es) \<longleftrightarrow> no_cancel es"
  "no_cancel (Incr_connections q i # es) \<longleftrightarrow> no_cancel es"
  "no_cancel (Decr_connections q i # es) \<longleftrightarrow> no_cancel es"
  "no_cancel (Youtube_list q t # es) \<longleftrightarrow> no_cancel es"
  "no_cancel (Search_releases s # es) \<longleftrightarrow> no_cancel es"
  "no_cancel (Sleep # es) \<longleftrightarrow> no_cancel es"
  "no_cancel (xs @ ys) \<longleftrightarrow> no_cancel xs \<and> no_cancel ys"
  by (auto simp: no_cancel_def)

lemma stops_at_cancel_append:
  "no_cancel xs \<Longrightarrow> stops_at_cancel (xs @ ys) = stops_at_cancel ys"
  by (induction xs rule: stops_at_cancel.induct) auto

lemma no_cancel_stops: "no_cancel xs \<Longrightarrow> stops_at_cancel xs"
  using stops_at_cancel_append [of xs "[]"] by simp

lemma cancel_shape_prepend:
  "no_cancel xs \<Longrightarrow> cancel_shape p res evs \<Longrightarrow> cancel_shape p res (xs @ evs)"
proof (cases res)
  case None
  assume "no_cancel xs" "cancel_shape p res evs"
  with None obtain pre r where "evs = pre @ [Get_progress p r]" "cancelled r" "no_cancel pre"
    by (auto simp: cancel_shape_def)
  with \<open>no_cancel xs\<close> have "xs @ evs = (xs @ pre) @ [Get_progress p r] \<and> cancelled r \<and> no_cancel (xs @ pre)"
    by simp
  with None show ?thesis unfolding cancel_shape_def by (simp only: option.case) blast
next
  case (Some c)
  assume "no_cancel xs" "cancel_shape p res evs"
  with Some show ?thesis by (simp add: cancel_shape_def)
qed

lemma cancel_shape_stops: "cancel_shape p res evs \<Longrightarrow> stops_at_cancel evs"
  by (cases res) (auto simp: cancel_shape_def stops_at_cancel_append no_cancel_stops)

lemma loop_cancel:
  assumes "enrichLoop env mb p n idx todo catalog w = (res, w')"
  shows "\<exists>evs. log w' = log w @ evs \<and> cancel_shape p res evs"
  using assms
proof (induction rule: enrichLoop_induct)
  case (Nil idx catalog w)
  then show ?case by (simp add: cancel_shape_def)
next
  case (Cancel idx item rest catalog w)
  then show ?case by (auto simp: cancel_shape_def intro: exI [of _ "[]"])
next
  case (Raise idx item rest catalog w res w')
  then obtain evs where
    "log w' = log w @ [Get_progress p (progresses (env (tick w) (db w)) p), Search_releases (ytname item)] @ evs"
    "cancel_shape p res evs" by auto
  with Raise(1) cancel_shape_prepend [of "[Get_progress p (progresses (env (tick w) (db w)) p), Search_releases (ytname item)]" p res evs]
  show ?case by auto
next
  case (Skip idx item rest catalog w res w')
  from log_persisted [of env p n idx "catalog[idx := item]" "checked env p w"] Skip(3)
  obtain c r evs where
    "log w' = log w @ [Get_progress p (progresses (env (tick w) (db w)) p),
        Setex_catalog p (catalog[idx := item]), Get_connections p c, Setex_progress p r, Sleep] @ evs"
    "cancel_shape p res evs" by auto
  with Skip(1) cancel_shape_prepend [of "[Get_progress p (progresses (env (tick w) (db w)) p),
        Setex_catalog p (catalog[idx := item]), Get_connections p c, Setex_progress p r, Sleep]" p res evs]
  show ?case by auto
next
  case (Found idx item rest catalog w rs res w')
  from log_persisted [of env p n idx "catalog[idx := best rs item]"
      "emit (Search_releases (ytname item)) (checked env p w)"] Found(4)
  obtain c r evs where
    "log w' = log w @ [Get_progress p (progresses (env (tick w) (db w)) p), Search_releases (ytname item),
        Setex_catalog p (catalog[idx := best rs item]), Get_connections p c, Setex_progress p r, Sleep] @ evs"
    "cancel_shape p res evs" by auto
  with Found(1) cancel_shape_prepend [of "[Get_progress p (progresses (env (tick w) (db w)) p), Search_releases (ytname item),
        Setex_catalog p (catalog[idx := best rs item]), Get_connections p c, Setex_progress p r, Sleep]" p res evs]
  show ?case by auto
qed

lemma keeps_refl: "keeps idx catalog catalog"
  by (simp add: keeps_def)

lemma keepsD:
  assumes "keeps idx catalog c"
  shows "length c = length catalog"
    and "j < idx \<Longrightarrow> c ! j = catalog ! j"
    and "idx \<le> j \<Longrightarrow> j < length catalog \<Longrightarrow> removed (catalog ! j) \<Longrightarrow> c ! j = catalog ! j"
  using assms unfolding keeps_def by blast+

lemma keeps_step:
  assumes i: "idx < length catalog" and x: "removed (catalog ! idx) \<longrightarrow> x = catalog ! idx"
    and k: "keeps (Suc idx) (catalog[idx := x]) c"
  shows "keeps idx catalog c"
  unfolding keeps_def
proof (intro conjI allI impI)
  show "length c = length catalog" using keepsD(1) [OF k] by simp
next
  fix j assume "j < idx"
  then have "c ! j = catalog[idx := x] ! j" using keepsD(2) [OF k, of j] by simp
  with \<open>j < idx\<close> show "c ! j = catalog ! j" by simp
next
  fix j assume j: "idx \<le> j \<and> j < length catalog \<and> removed (catalog ! j)"
  show "c ! j = catalog ! j"
  proof (cases "j = idx")
    case True
    then have "c ! j = catalog[idx := x] ! j" using keepsD(2) [OF k, of j] by simp
    with True i have "c ! j = x" by simp
    with True x j show ?thesis by simp
  next
    case False
    with j have *: "Suc idx \<le> j" "j < length (catalog[idx := x])" "removed (catalog[idx := x] ! j)"
      by simp_all
    from keepsD(3) [OF k *] False show ?thesis by simp
  qed
qed

lemma keeps_pass:
  assumes nr: "\<not> removed (catalog ! idx)" and k: "keeps (Suc idx) catalog c"
  shows "keeps idx catalog c"
  unfolding keeps_def
proof (intro conjI allI impI)
  show "length c = length catalog" using keepsD(1) [OF k] .
next
  fix j assume "j < idx"
  then show "c ! j = catalog ! j" using keepsD(2) [OF k, of j] by simp
next
  fix j assume j: "idx \<le> j \<and> j < length catalog \<and> removed (catalog ! j)"
  with nr have "j \<noteq> idx" by auto
  with j have "Suc idx \<le> j" "j < length catalog" "removed (catalog ! j)" by simp_all
  from keepsD(3) [OF k this] show "c ! j = catalog ! j" .
qed

lemma drop_eq_ConsD:
  assumes "drop i xs = y # ys"
  shows "i < length xs \<and> xs ! i = y \<and> drop (Suc i) xs = ys"
proof -
  have i: "i < length xs"
  proof (rule ccontr)
    assume "\<not> i < length xs"
    then have "drop i xs = []" by simp
    with assms show False by simp
  qed
  from Cons_nth_drop_Suc [OF i] assms have "xs ! i # drop (Suc i) xs = y # ys" by (simp only:)
  with i show ?thesis by simp
qed

lemma loop_snapshots:
  assumes "enrichLoop env mb p n idx todo catalog w = (res, w')" "drop idx catalog = todo"
  shows "\<exists>evs. log w' = log w @ evs \<and>
     (\<forall>q c. Setex_catalog q c \<in> set evs \<longrightarrow> q = p \<and> keeps idx catalog c) \<and>
     (\<forall>c. res = Some c \<longrightarrow> keeps idx catalog c)"
  using assms
proof (induction rule: enrichLoop_induct)
  case (Nil idx catalog w)
  then show ?case by (simp add: keeps_refl)
next
  case (Cancel idx item rest catalog w)
  then show ?case by simp
next
  case (Raise idx item rest catalog w res w')
  from drop_eq_ConsD [OF Raise(5)]
  have d: "idx < length catalog" "catalog ! idx = item" "drop (Suc idx) catalog = rest" by auto
  from Raise(4) [OF d(3)] obtain evs where ih:
    "log w' = log w @ [Get_progress p (progresses (env (tick w) (db w)) p), Search_releases (ytname item)] @ evs"
    "\<forall>q c. Setex_catalog q c \<in> set evs \<longrightarrow> q = p \<and> keeps (Suc idx) catalog c"
    "\<forall>c. res = Some c \<longrightarrow> keeps (Suc idx) catalog c" by auto
  from Raise(2) d have nr: "\<not> removed (catalog ! idx)" by simp
  have a: "\<forall>q c. Setex_catalog q c \<in> set evs \<longrightarrow> q = p \<and> keeps idx catalog c"
    using ih(2) keeps_pass [OF nr] by blast
  have b: "\<forall>c. res = Some c \<longrightarrow> keeps idx catalog c"
    using ih(3) keeps_pass [OF nr] by blast
  from ih(1) a b show ?case
    by (intro exI [of _ "[Get_progress p (progresses (env (tick w) (db w)) p), Search_releases (ytname item)] @ evs"])
      simp
next
  case (Skip idx item rest catalog w res w')
  from drop_eq_ConsD [OF Skip(4)]
  have d: "idx < length catalog" "catalog ! idx = item" "drop (Suc idx) catalog = rest" by auto
  then have d': "drop (Suc idx) (catalog[idx := item]) = rest" by simp
  from log_persisted [of env p n idx "catalog[idx := item]" "checked env p w"] Skip(3) [OF d']
  obtain k r evs where ih:
    "log w' = log w @ [Get_progress p (progresses (env (tick w) (db w)) p),
        Setex_catalog p (catalog[idx := item]), Get_connections p k, Setex_progress p r, Sleep] @ evs"
    "\<forall>q c. Setex_catalog q c \<in> set evs \<longrightarrow> q = p \<and> keeps (Suc idx) (catalog[idx := item]) c"
    "\<forall>c. res = Some c \<longrightarrow> keeps (Suc idx) (catalog[idx := item]) c" by auto
  have step: "keeps idx catalog c" if "keeps (Suc idx) (catalog[idx := item]) c" for c
    using keeps_step [OF d(1) _ that] d(2) by simp
  have here: "keeps idx catalog (catalog[idx := item])"
    using step [OF keeps_refl] .
  have a: "\<forall>q c. Setex_catalog q c \<in> set evs \<longrightarrow> q = p \<and> keeps idx catalog c"
    using ih(2) step by blast
  have b: "\<forall>c. res = Some c \<longrightarrow> keeps idx catalog c"
    using ih(3) step by blast
  from ih(1) here a b show ?case
    by (intro exI [of _ "[Get_progress p (progresses (env (tick w) (db w)) p),
        Setex_catalog p (catalog[idx := item]), Get_connections p k, Setex_progress p r, Sleep] @ evs"])
      simp
next
  case (Found idx item rest catalog w rs res w')
  from drop_eq_ConsD [OF Found(5)]
  have d: "idx < length catalog" "catalog ! idx = item" "drop (Suc idx) catalog = rest" by auto
  then have d': "drop (Suc idx) (catalog[idx := best rs item]) = rest" by simp
  from log_persisted [of env p n idx "catalog[idx := best rs item]"
      "emit (Search_releases (ytname item)) (checked env p w)"] Found(4) [OF d']
  obtain k r evs where ih:
    "log w' = log w @ [Get_progress p (progresses (env (tick w) (db w)) p), Search_releases (ytname item),
        Setex_catalog p (catalog[idx := best rs item]), Get_connections p k, Setex_progress p r, Sleep] @ evs"
    "\<forall>q c. Setex_catalog q c \<in> set evs \<longrightarrow> q = p \<and> keeps (Suc idx) (catalog[idx := best rs item]) c"
    "\<forall>c. res = Some c \<longrightarrow> keeps (Suc idx) (catalog[idx := best rs item]) c" by auto
  have step: "keeps idx catalog c" if "keeps (Suc idx) (catalog[idx := best rs item]) c" for c
    using keeps_step [OF d(1) _ that] d(2) Found(2) by simp
  have here: "keeps idx catalog (catalog[idx := best rs item])"
    using step [OF keeps_refl] .
  have a: "\<forall>q c. Setex_catalog q c \<in> set evs \<longrightarrow> q = p \<and> keeps idx catalog c"
    using ih(2) step by blast
  have b: "\<forall>c. res = Some c \<longrightarrow> keeps idx catalog c"
    using ih(3) step by blast
  from ih(1) here a b show ?case
    by (intro exI [of _ "[Get_progress p (progresses (env (tick w) (db w)) p), Search_releases (ytname item),
        Setex_catalog p (catalog[idx := best rs item]), Get_connections p k, Setex_progress p r, Sleep] @ evs"])
      simp
qed

lemma loop_searches:
  assumes "enrichLoop env mb p n idx todo catalog w = (res, w')"
  shows "\<exists>evs. log w' = log w @ evs \<and>
     (\<forall>s. Search_releases s \<in> set evs \<longrightarrow> s \<notin> set [''Deleted video'', ''Private video''])"
  using assms
proof (induction rule: enrichLoop_induct)
  case (Nil idx catalog w)
  then show ?case by simp
next
  case (Cancel idx item rest catalog w)
  then show ?case by simp
next
  case (Raise idx item rest catalog w res w')
  then obtain evs where
    "log w' = log w @ [Get_progress p (progresses (env (tick w) (db w)) p), Search_releases (ytname item)] @ evs"
    "\<forall>s. Search_releases s \<in> set evs \<longrightarrow> s \<notin> set [''Deleted video'', ''Private video'']" by auto
  with Raise(2) show ?case
    by (intro exI [of _ "[Get_progress p (progresses (env (tick w) (db w)) p), Search_releases (ytname item)] @ evs"])
      (auto simp: removed_def)
next
  case (Skip idx item rest catalog w res w')
  from log_persisted [of env p n idx "catalog[idx := item]" "checked env p w"] Skip(3)
  obtain k r evs where
    "log w' = log w @ [Get_progress p (progresses (env (tick w) (db w)) p),
        Setex_catalog p (catalog[idx := item]), Get_connections p k, Setex_progress p r, Sleep] @ evs"
    "\<forall>s. Search_releases s \<in> set evs \<longrightarrow> s \<notin> set [''Deleted video'', ''Private video'']" by auto
  then show ?case
    by (intro exI [of _ "[Get_progress p (progresses (env (tick w) (db w)) p),
        Setex_catalog p (catalog[idx := item]), Get_connections p k, Setex_progress p r, Sleep] @ evs"])
      auto
next
  case (Found idx item rest catalog w rs res w')
  from log_persisted [of env p n idx "catalog[idx := best rs item]"
      "emit (Search_releases (ytname item)) (checked env p w)"] Found(4)
  obtain k r evs where
    "log w' = log w @ [Get_progress p (progresses (env (tick w) (db w)) p), Search_releases (ytname item),
        Setex_catalog p (catalog[idx := best rs item]), Get_connections p k, Setex_progress p r, Sleep] @ evs"
    "\<forall>s. Search_releases s \<in> set evs \<longrightarrow> s \<notin> set [''Deleted video'', ''Private video'']" by auto
  with Found(2) show ?case
    by (intro exI [of _ "[Get_progress p (progresses (env (tick w) (db w)) p), Search_releases (ytname item),
        Setex_catalog p (catalog[idx := best rs item]), Get_connections p k, Setex_progress p r, Sleep] @ evs"])
      (auto simp: removed_def)
qed

lemma loop_cursor:
  assumes "enrichLoop env mb p n idx todo catalog w = (res, w')" "drop idx catalog = todo"
  shows "\<exists>evs. log w' = log w @ evs \<and>
     (\<forall>c j. res = Some c \<and> idx \<le> j \<and> j < length catalog \<and> removed (catalog ! j) \<longrightarrow>
        (\<exists>r\<in>set (progress_writes p evs). currentItem r = Suc j \<and> status r = ''processing''))"
  using assms
proof (induction rule: enrichLoop_induct)
  case (Nil idx catalog w)
  then show ?case by simp
next
  case (Cancel idx item rest catalog w)
  then show ?case by simp
next
  case (Raise idx item rest catalog w res w')
  from drop_eq_ConsD [OF Raise(5)]
  have d: "idx < length catalog" "catalog ! idx = item" "drop (Suc idx) catalog = rest" by auto
  from Raise(4) [OF d(3)] obtain evs where ih:
    "log w' = log w @ [Get_progress p (progresses (env (tick w) (db w)) p), Search_releases (ytname item)] @ evs"
    "\<forall>c j. res = Some c \<and> Suc idx \<le> j \<and> j < length catalog \<and> removed (catalog ! j) \<longrightarrow>
        (\<exists>r\<in>set (progress_writes p evs). currentItem r = Suc j \<and> status r = ''processing'')" by auto
  have "\<exists>r\<in>set (progress_writes p evs). currentItem r = Suc j \<and> status r = ''processing''"
    if "res = Some c" "idx \<le> j" "j < length catalog" "removed (catalog ! j)" for c j
  proof -
    from that Raise(2) d have "j \<noteq> idx" by auto
    with that ih(2) show ?thesis by (simp add: Suc_le_eq)
  qed
  with ih(1) show ?case
    by (intro exI [of _ "[Get_progress p (progresses (env (tick w) (db w)) p), Search_releases (ytname item)] @ evs"])
      auto
next
  case (Skip idx item rest catalog w res w')
  from drop_eq_ConsD [OF Skip(4)]
  have d: "idx < length catalog" "catalog ! idx = item" "drop (Suc idx) catalog = rest" by auto
  then have d': "drop (Suc idx) (catalog[idx := item]) = rest" by simp
  from log_persisted [of env p n idx "catalog[idx := item]" "checked env p w"] Skip(3) [OF d']
  obtain k r evs where ih:
    "log w' = log w @ [Get_progress p (progresses (env (tick w) (db w)) p),
        Setex_catalog p (catalog[idx := item]), Get_connections p k, Setex_progress p r, Sleep] @ evs"
    "status r = ''processing''" "currentItem r = Suc idx"
    "\<forall>c j. res = Some c \<and> Suc idx \<le> j \<and> j < length (catalog[idx := item]) \<and>
        removed (catalog[idx := item] ! j) \<longrightarrow>
        (\<exists>r\<in>set (progress_writes p evs). currentItem r = Suc j \<and> status r = ''processing'')" by auto
  have "\<exists>x\<in>set (r # progress_writes p evs). currentItem x = Suc j \<and> status x = ''processing''"
    if "res = Some c" "idx \<le> j" "j < length catalog" "removed (catalog ! j)" for c j
  proof (cases "j = idx")
    case True
    with ih(2,3) show ?thesis by simp
  next
    case False
    with that ih(4) show ?thesis by (simp add: Suc_le_eq)
  qed
  with ih(1) show ?case
    by (intro exI [of _ "[Get_progress p (progresses (env (tick w) (db w)) p),
        Setex_catalog p (catalog[idx := item]), Get_connections p k, Setex_progress p r, Sleep] @ evs"])
      auto
next
  case (Found idx item rest catalog w rs res w')
  from drop_eq_ConsD [OF Found(5)]
  have d: "idx < length catalog" "catalog ! idx = item" "drop (Suc idx) catalog = rest" by auto
  then have d': "drop (Suc idx) (catalog[idx := best rs item]) = rest" by simp
  from log_persisted [of env p n idx "catalog[idx := best rs item]"
      "emit (Search_releases (ytname item)) (checked env p w)"] Found(4) [OF d']
  obtain k r evs where ih:
    "log w' = log w @ [Get_progress p (progresses (env (tick w) (db w)) p), Search_releases (ytname item),
        Setex_catalog p (catalog[idx := best rs item]), Get_connections p k, Setex_progress p r, Sleep] @ evs"
    "\<forall>c j. res = Some c \<and> Suc idx \<le> j \<and> j < length (catalog[idx := best rs item]) \<and>
        removed (catalog[idx := best rs item] ! j) \<longrightarrow>
        (\<exists>r\<in>set (progress_writes p evs). currentItem r = Suc j \<and> status r = ''processing'')" by auto
  have "\<exists>x\<in>set (r # progress_writes p evs). currentItem x = Suc j \<and> status x = ''processing''"
    if "res = Some c" "idx \<le> j" "j < length catalog" "removed (catalog ! j)" for c j
  proof -
    from that Found(2) d have "j \<noteq> idx" by auto
    with that ih(2) show ?thesis by (simp add: Suc_le_eq)
  qed
  with ih(1) show ?case
    by (intro exI [of _ "[Get_progress p (progresses (env (tick w) (db w)) p), Search_releases (ytname item),
        Setex_catalog p (catalog[idx := best rs item]), Get_connections p k, Setex_progress p r, Sleep] @ evs"])
      auto
qed

subsection \<open>Whole runs\<close>

lemma playlistData_log:
  assumes "playlistData yt p w = Some (r, w1)"
  shows "\<exists>evs. log w1 = log w @ evs \<and> db w1 = db w \<and> tick w1 = tick w \<and>
           (\<forall>e\<in>set evs. \<exists>t. e = Youtube_list p t) \<and>
           (\<forall>c. r = Some c \<longrightarrow> (\<exists>ys. c = map entry_of ys))"
  using playlistPages_log [of yt p None "[]" w r w1] assms by (simp add: playlistData_def)

lemma processPlaylist_cases [consumes 1, case_names Failed Cancelled Done]:
  assumes "processPlaylist env yt mb p w = Some (res, w')"
  obtains
    (Failed) r w1 where "playlistData yt p w = Some (r, w1)" "r = None \<or> r = Some []"
      "res = None" "w' = clearProgress env p w1"
  | (Cancelled) cat w1 where "playlistData yt p w = Some (Some cat, w1)" "cat \<noteq> []"
      "enrichLoop env mb p (length cat) 0 cat cat
         (saveProgress env p 0 (length cat) ''processing'' w1) = (None, w')" "res = None"
  | (Done) cat w1 c w2 where "playlistData yt p w = Some (Some cat, w1)" "cat \<noteq> []"
      "enrichLoop env mb p (length cat) 0 cat cat
         (saveProgress env p 0 (length cat) ''processing'' w1) = (Some c, w2)"
      "res = Some c" "w' = saveProgress env p (length cat) (length cat) ''completed'' w2"
  using assms unfolding processPlaylist_def
  by (auto split: option.splits prod.splits if_splits)

lemma processPlaylist_returns:
  "processPlaylist env yt mb p w \<noteq> None \<longleftrightarrow> playlistData yt p w \<noteq> None"
  unfolding processPlaylist_def
  by (auto split: option.splits prod.splits if_splits)

lemma youtube_only_progress [simp]:
  "\<forall>e\<in>set evs. \<exists>t. e = Youtube_list p t \<Longrightarrow> progress_writes q evs = []"
  by (induction q evs rule: progress_writes.induct) auto

lemma youtube_only_no_cancel [simp]:
  "\<forall>e\<in>set evs. \<exists>t. e = Youtube_list p t \<Longrightarrow> no_cancel evs"
  by (auto simp: no_cancel_def)

lemma last_completed:
  assumes "qs @ [x] = pre @ r # post" "status r = ''completed''"
    "\<forall>y\<in>set qs. status y = ''processing''"
  shows "post = []"
proof (cases post rule: rev_cases)
  case Nil
  then show ?thesis .
next
  case (snoc ys y)
  with assms(1) have "qs = pre @ r # ys" by simp
  with assms(2,3) show ?thesis by auto
qed

lemma playlistData_demo:
  "playlistData demo_youtube p w = Some (Some (map entry_of demo_items), emit (Youtube_list p None) w)"
  by (simp add: playlistData_def playlistPages.simps demo_youtube_def)

lemma returned_pair: "x \<noteq> None \<Longrightarrow> x = Some (fst (the x), snd (the x))"
  by (cases x) auto

text \<open>
  C6. In any run that returns, the Progress Records it writes for its identifier have
  non-decreasing \<open>currentItem\<close> values, and no record with status processing is written
  after one with status completed.
\<close>

theorem progress_monotone:
  assumes "processPlaylist env yt mb p w = Some (res, w')"
  shows "sorted (map currentItem (progress_writes p (trace_from w w'))) \<and>
    (\<forall>pre r post. progress_writes p (trace_from w w') = pre @ r # post \<and> status r = ''completed''
        \<longrightarrow> (\<forall>x\<in>set post. status x \<noteq> ''processing''))"
  using assms
proof (cases rule: processPlaylist_cases)
  case (Failed r w1)
  from playlistData_log [OF Failed(1)] obtain yts where
    "log w1 = log w @ yts" "\<forall>e\<in>set yts. \<exists>t. e = Youtube_list p t" by blast
  with Failed(4) have "trace_from w w' = yts @ [Delete_progress p, Delete_connections p, Delete_catalog p]"
    by (simp add: trace_fromI log_clearProgress)
  with \<open>\<forall>e\<in>set yts. \<exists>t. e = Youtube_list p t\<close> show ?thesis by simp
next
  case (Cancelled cat w1)
  from playlistData_log [OF Cancelled(1)] obtain yts where
    y: "log w1 = log w @ yts" "\<forall>e\<in>set yts. \<exists>t. e = Youtube_list p t" by blast
  from log_saveProgress [of env p 0 "length cat" "''processing''" w1]
  obtain k r0 where s0: "log (saveProgress env p 0 (length cat) ''processing'' w1) =
      log w1 @ [Get_connections p k, Setex_progress p r0]"
    "status r0 = ''processing''" "currentItem r0 = 0" by blast
  from loop_progress_writes [OF Cancelled(3), of p] obtain evs where
    l: "log w' = log (saveProgress env p 0 (length cat) ''processing'' w1) @ evs"
    "sorted (map currentItem (progress_writes p evs))"
    "\<forall>r\<in>set (progress_writes p evs). status r = ''processing'' \<and> 0 < currentItem r \<and>
        currentItem r \<le> 0 + length cat" by blast
  have t: "trace_from w w' = yts @ [Get_connections p k, Setex_progress p r0] @ evs"
    using y(1) s0(1) l(1) by (simp add: trace_fromI)
  have ps: "progress_writes p (trace_from w w') = r0 # progress_writes p evs"
    using t y(2) by simp
  have "sorted (map currentItem (r0 # progress_writes p evs))"
    using l(2,3) s0(3) by simp
  moreover have "\<forall>x\<in>set (r0 # progress_writes p evs). status x = ''processing''"
    using l(3) s0(2) by simp
  ultimately have "sorted (map currentItem (r0 # progress_writes p evs))"
    and "\<forall>pre r post. r0 # progress_writes p evs = pre @ r # post \<and> status r = ''completed''
        \<longrightarrow> (\<forall>x\<in>set post. status x \<noteq> ''processing'')"
    by (simp, fastforce)
  then show ?thesis unfolding ps by (rule conjI)
next
  case (Done cat w1 c w2)
  from playlistData_log [OF Done(1)] obtain yts where
    y: "log w1 = log w @ yts" "\<forall>e\<in>set yts. \<exists>t. e = Youtube_list p t" by blast
  from log_saveProgress [of env p 0 "length cat" "''processing''" w1]
  obtain k r0 where s0: "log (saveProgress env p 0 (length cat) ''processing'' w1) =
      log w1 @ [Get_connections p k, Setex_progress p r0]"
    "status r0 = ''processing''" "currentItem r0 = 0" by blast
  from loop_progress_writes [OF Done(3), of p] obtain evs where
    l: "log w2 = log (saveProgress env p 0 (length cat) ''processing'' w1) @ evs"
    "sorted (map currentItem (progress_writes p evs))"
    "\<forall>r\<in>set (progress_writes p evs). status r = ''processing'' \<and> 0 < currentItem r \<and>
        currentItem r \<le> 0 + length cat" by blast
  from log_saveProgress [of env p "length cat" "length cat" "''completed''" w2] Done(5)
  obtain k' rn where sn: "log w' = log w2 @ [Get_connections p k', Setex_progress p rn]"
    "status rn = ''completed''" "currentItem rn = length cat" by blast
  have t: "trace_from w w' = yts @ [Get_connections p k, Setex_progress p r0] @ evs @
      [Get_connections p k', Setex_progress p rn]"
    using y(1) s0(1) l(1) sn(1) by (simp add: trace_fromI)
  have ps: "progress_writes p (trace_from w w') = (r0 # progress_writes p evs) @ [rn]"
    using t y(2) by simp
  have "sorted (map currentItem ((r0 # progress_writes p evs) @ [rn]))"
    using l(2,3) s0(3) sn(3) by (auto simp: sorted_append)
  moreover have proc: "\<forall>x\<in>set (r0 # progress_writes p evs). status x = ''processing''"
    using l(3) s0(2) by simp
  have "\<forall>x\<in>set post. status x \<noteq> ''processing''"
    if "(r0 # progress_writes p evs) @ [rn] = pre @ r # post" "status r = ''completed''" for pre r post
    using last_completed [OF that proc] by simp
  ultimately show ?thesis unfolding ps by blast
qed

theorem progress_monotone_witness:
  "processPlaylist quiet demo_youtube demo_musicbrainz ''PL1'' watched_world \<noteq> None \<and>
   sorted (map currentItem (progress_writes ''PL1'' (trace_from watched_world
     (snd (the (processPlaylist quiet demo_youtube demo_musicbrainz ''PL1'' watched_world)))))) \<and>
   map status (progress_writes ''PL1'' (trace_from watched_world
     (snd (the (processPlaylist quiet demo_youtube demo_musicbrainz ''PL1'' watched_world))))) =
     [''processing'', ''processing'', ''processing'', ''processing'', ''completed'']"
proof -
  have r: "processPlaylist quiet demo_youtube demo_musicbrainz ''PL1'' watched_world \<noteq> None"
    unfolding processPlaylist_returns by (simp add: playlistData_demo)
  from progress_monotone [OF returned_pair [OF r]] r show ?thesis
    by (simp add: processPlaylist_def playlistData_demo demo_items_def entry_of_def
        enrichLoop.simps lookup_def demo_musicbrainz_def saveProgress_def saveCatalog_def
        getProgress_def Let_def quiet_def watched_world_def trace_from_def command_def emit_def)
qed

subsection \<open>Attach and detach\<close>

lemmas store_ops = command_def emit_def quiet_def saveCatalog_def getCatalog_def clearCatalog_def
  saveProgress_def getProgress_def clearProgress_def incrementConnections_def
  decrementConnections_def

text \<open>
  C3 (as amended). When no viewer is attached (the viewer count is absent or not positive)
  and the Progress Record exists with a status other than completed, one attach followed
  by one detach, with nothing in between, leaves Progress Record, Catalog snapshot and
  Viewer Count absent.
\<close>

theorem abandonment_tears_down:
  assumes "progresses (db w) p = Some r" and "status r \<noteq> ''completed''"
    and "case connections (db w) p of None \<Rightarrow> True | Some n \<Rightarrow> n \<le> 0"
  shows "progresses (db (attach_detach p w)) p = None \<and>
         catalogs (db (attach_detach p w)) p = None \<and>
         connections (db (attach_detach p w)) p = None"
  using assms
  by (auto simp: attach_detach_def store_ops Let_def split: option.splits if_splits)

theorem abandonment_tears_down_witness:
  "progresses (db (attach_detach ''PL1'' abandoned_world)) ''PL1'' = None \<and>
   catalogs (db (attach_detach ''PL1'' abandoned_world)) ''PL1'' = None \<and>
   connections (db (attach_detach ''PL1'' abandoned_world)) ''PL1'' = None"
  using abandonment_tears_down [of abandoned_world "''PL1''"
      "\<lparr>status = ''processing'', currentItem = 1, totalItems = 3, activeConnections = 0\<rparr>"]
  by (simp add: abandoned_world_def)

text \<open>
  C3 as stated fails when another viewer is attached already, as after a start-run
  request (which attaches a viewer that nothing detaches): the count goes from 1 to 2 and
  back to 1, and nothing is torn down.
\<close>

theorem abandonment_counterexample:
  "progresses (db (attach_detach ''PL1'' streaming_world)) ''PL1'' =
     Some \<lparr>status = ''processing'', currentItem = 1, totalItems = 3, activeConnections = 1\<rparr> \<and>
   catalogs (db (attach_detach ''PL1'' streaming_world)) ''PL1'' = Some (map entry_of demo_items) \<and>
   connections (db (attach_detach ''PL1'' streaming_world)) ''PL1'' = Some 1"
  by (simp add: attach_detach_def streaming_world_def store_ops Let_def)

text \<open>
  C4. When the Progress Record exists with status completed, one attach followed by one
  detach leaves every Progress Record and every Catalog snapshot as it was (so present
  where it was present); only the Viewer Count key of the identifier can change: it is
  deleted unless other viewers were attached.
\<close>

theorem completed_survives:
  assumes "progresses (db w) p = Some r" and "status r = ''completed''"
  shows "progresses (db (attach_detach p w)) = progresses (db w) \<and>
         catalogs (db (attach_detach p w)) = catalogs (db w) \<and>
         connections (db (attach_detach p w)) =
           (connections (db w))
             (p := (case connections (db w) p of None \<Rightarrow> None
                    | Some n \<Rightarrow> if 0 < n then Some n else None))"
  using assms
  by (auto simp: attach_detach_def store_ops Let_def fun_eq_iff split: option.splits if_splits)

theorem completed_survives_witness:
  "progresses (db (attach_detach ''PL1'' finished_world)) ''PL1'' =
     Some \<lparr>status = ''completed'', currentItem = 3, totalItems = 3, activeConnections = 1\<rparr> \<and>
   catalogs (db (attach_detach ''PL1'' finished_world)) ''PL1'' = Some (map entry_of demo_items) \<and>
   connections (db (attach_detach ''PL1'' finished_world)) ''PL1'' = None"
  using completed_survives [of finished_world "''PL1''"
      "\<lparr>status = ''completed'', currentItem = 3, totalItems = 3, activeConnections = 1\<rparr>"]
  by (simp add: finished_world_def)

lemma perform_viewer_ok:
  assumes "\<forall>q. viewer_ok w q"
  shows "viewer_ok (perform a w) q"
proof -
  from assms have "viewer_ok w q" by blast
  then show ?thesis
    by (cases a) (auto simp: viewer_ok_def store_ops Let_def split: option.splits if_splits)
qed

lemma fold_perform_viewer_ok:
  "\<forall>q. viewer_ok w q \<Longrightarrow> viewer_ok (fold perform ops w) q"
proof (induction ops arbitrary: w)
  case Nil
  then show ?case by simp
next
  case (Cons a ops)
  from Cons.prems have "\<forall>q. viewer_ok (perform a w) q"
    using perform_viewer_ok by blast
  from Cons.IH [OF this] show ?case by simp
qed

text \<open>
  C10 (as amended). With no other request's command in between, an attach and a detach
  keep every Viewer Count key absent or strictly positive; after a detach the key of the
  identifier is so whatever it held before, and a detach on an absent key returns -1 and
  leaves the key absent. So after any sequence of attaches, detaches and cancels that
  starts from the empty store and runs one operation after the other, every key is absent
  or strictly positive.
\<close>

theorem viewer_count_positive:
  "(viewer_ok w q \<longrightarrow> viewer_ok (snd (incrementConnections quiet p w)) q) \<and>
   (viewer_ok w q \<longrightarrow> viewer_ok (snd (decrementConnections quiet p w)) q) \<and>
   viewer_ok (snd (decrementConnections quiet p w)) p \<and>
   (connections (db w) p = None \<longrightarrow>
      fst (decrementConnections quiet p w) = - 1 \<and>
      connections (db (snd (decrementConnections quiet p w))) p = None) \<and>
   viewer_ok (fold perform ops empty_world) q"
proof -
  have "\<forall>q. viewer_ok empty_world q" by (simp add: viewer_ok_def empty_world_def)
  from fold_perform_viewer_ok [OF this] have "viewer_ok (fold perform ops empty_world) q" .
  then show ?thesis
    by (auto simp: viewer_ok_def store_ops Let_def split: option.splits if_splits)
qed

theorem viewer_count_positive_witness:
  "viewer_ok empty_world ''PL1'' \<and>
   connections (db (snd (incrementConnections quiet ''PL1'' empty_world))) ''PL1'' = Some 1 \<and>
   viewer_ok (snd (incrementConnections quiet ''PL1'' empty_world)) ''PL1'' \<and>
   viewer_ok (snd (decrementConnections quiet ''PL1'' empty_world)) ''PL1'' \<and>
   fst (decrementConnections quiet ''PL1'' empty_world) = - 1 \<and>
   connections (db (snd (decrementConnections quiet ''PL1'' empty_world))) ''PL1'' = None \<and>
   viewer_ok (fold perform [Detach ''PL1'', Attach ''PL1'', Attach ''PL1'', Detach ''PL1'']
     empty_world) ''PL1'' \<and>
   connections (db (fold perform [Detach ''PL1'', Attach ''PL1'', Attach ''PL1'', Detach ''PL1'']
     empty_world)) ''PL1'' = Some 1"
proof -
  have ok: "viewer_ok empty_world ''PL1''" and absent: "connections (db empty_world) ''PL1'' = None"
    by (simp_all add: viewer_ok_def empty_world_def)
  have one: "connections (db (snd (incrementConnections quiet ''PL1'' empty_world))) ''PL1'' = Some 1"
    by (simp add: empty_world_def store_ops Let_def)
  have seq: "connections (db (fold perform
      [Detach ''PL1'', Attach ''PL1'', Attach ''PL1'', Detach ''PL1''] empty_world)) ''PL1'' = Some 1"
    by (simp add: empty_world_def store_ops Let_def)
  from viewer_count_positive [of empty_world "''PL1''" "''PL1''"
      "[Detach ''PL1'', Attach ''PL1'', Attach ''PL1'', Detach ''PL1'']"] ok absent one seq
  show ?thesis by blast
qed

text \<open>
  C10 as stated fails when requests interleave: a detach is two commands, \<^verbatim>\<open>DECR\<close> and
  then \<^verbatim>\<open>DELETE\<close>. With the \<^verbatim>\<open>DECR\<close> of another request's detach on the absent key in
  flight (the key holds -1), an attach completes with the key at 0.
\<close>

theorem viewer_count_counterexample:
  "connections (db empty_world) ''PL1'' = None \<and>
   fst (incrementConnections racing_detach ''PL1'' empty_world) = 0 \<and>
   connections (db (snd (incrementConnections racing_detach ''PL1'' empty_world))) ''PL1'' = Some 0 \<and>
   \<not> viewer_ok (snd (incrementConnections racing_detach ''PL1'' empty_world)) ''PL1''"
  by (simp add: viewer_ok_def racing_detach_def empty_world_def incrementConnections_def
      command_def emit_def Let_def)

subsection \<open>Cancellation, skipped entries and persistence\<close>

lemma no_cancel_iff: "no_cancel evs \<longleftrightarrow> \<not> (\<exists>q r. Get_progress q r \<in> set evs \<and> cancelled r)"
  by (auto simp: no_cancel_def)

lemma run_cancel:
  assumes "processPlaylist env yt mb p w = Some (res, w')"
  shows "stops_at_cancel (trace_from w w') \<and>
         ((\<exists>q r. Get_progress q r \<in> set (trace_from w w') \<and> cancelled r) \<longrightarrow> res = None)"
  using assms
proof (cases rule: processPlaylist_cases)
  case (Failed r w1)
  from playlistData_log [OF Failed(1)] obtain yts where
    "log w1 = log w @ yts" "\<forall>e\<in>set yts. \<exists>t. e = Youtube_list p t" by blast
  with Failed(4)
  have t: "trace_from w w' = yts @ [Delete_progress p, Delete_connections p, Delete_catalog p]"
    and "no_cancel yts"
    by (simp_all add: trace_fromI log_clearProgress)
  then have "no_cancel (trace_from w w')" by simp
  from no_cancel_stops [OF this] this Failed(3) show ?thesis by (simp add: no_cancel_iff)
next
  case (Cancelled cat w1)
  from playlistData_log [OF Cancelled(1)] obtain yts where
    y: "log w1 = log w @ yts" "\<forall>e\<in>set yts. \<exists>t. e = Youtube_list p t" by blast
  from log_saveProgress [of env p 0 "length cat" "''processing''" w1]
  obtain k r0 where s0: "log (saveProgress env p 0 (length cat) ''processing'' w1) =
      log w1 @ [Get_connections p k, Setex_progress p r0]" by blast
  from loop_cancel [OF Cancelled(3)] obtain evs where
    l: "log w' = log (saveProgress env p 0 (length cat) ''processing'' w1) @ evs"
    "cancel_shape p None evs" by blast
  have t: "trace_from w w' = (yts @ [Get_connections p k, Setex_progress p r0]) @ evs"
    using y(1) s0(1) l(1) by (simp add: trace_fromI)
  have "no_cancel (yts @ [Get_connections p k, Setex_progress p r0])"
    using y(2) by simp
  from cancel_shape_stops [OF cancel_shape_prepend [OF this l(2)]] Cancelled(4)
  show ?thesis unfolding t by simp
next
  case (Done cat w1 c w2)
  from playlistData_log [OF Done(1)] obtain yts where
    y: "log w1 = log w @ yts" "\<forall>e\<in>set yts. \<exists>t. e = Youtube_list p t" by blast
  from log_saveProgress [of env p 0 "length cat" "''processing''" w1]
  obtain k r0 where s0: "log (saveProgress env p 0 (length cat) ''processing'' w1) =
      log w1 @ [Get_connections p k, Setex_progress p r0]" by blast
  from loop_cancel [OF Done(3)] obtain evs where
    l: "log w2 = log (saveProgress env p 0 (length cat) ''processing'' w1) @ evs"
    "cancel_shape p (Some c) evs" by blast
  from log_saveProgress [of env p "length cat" "length cat" "''completed''" w2] Done(5)
  obtain k' rn where sn: "log w' = log w2 @ [Get_connections p k', Setex_progress p rn]" by blast
  have t: "trace_from w w' = yts @ [Get_connections p k, Setex_progress p r0] @ evs @
      [Get_connections p k', Setex_progress p rn]"
    using y(1) s0(1) l(1) sn(1) by (simp add: trace_fromI)
  have nc: "no_cancel (trace_from w w')"
    unfolding t using y(2) l(2) by (simp add: cancel_shape_def)
  from no_cancel_stops [OF nc] nc show ?thesis by (auto simp: no_cancel_iff)
qed

text \<open>
  C7. Every entry of the loop starts with a fresh read of the Progress Record, as the
  store holds it at that moment; when it is absent or its \<open>activeConnections\<close> is not
  positive the loop returns \<open>None\<close> at once, the read being all it did. Over a whole
  run: such a read is the last event of the run (nothing is written after it, the final
  record included), and the run returns \<open>None\<close>.
\<close>

theorem cooperative_cancellation:
  "(cancelled (progresses (env (tick w) (db w)) p) \<longrightarrow>
      enrichLoop env mb p n idx (item # rest) catalog w =
        (None, emit (Get_progress p (progresses (env (tick w) (db w)) p)) (command env w))) \<and>
   (processPlaylist env yt mb p w0 = Some (res, w') \<longrightarrow>
      stops_at_cancel (trace_from w0 w') \<and>
      ((\<exists>q r. Get_progress q r \<in> set (trace_from w0 w') \<and> cancelled r) \<longrightarrow> res = None))"
  using run_cancel [of env yt mb p w0 res w'] by (simp add: enrichLoop_Cons)

theorem cooperative_cancellation_witness:
  "cancelled (progresses (teardown_at 6 (tick empty_world) (db empty_world)) ''PL1'') \<and>
   enrichLoop (teardown_at 6) demo_musicbrainz ''PL1'' 3 0 (map entry_of demo_items)
       (map entry_of demo_items) empty_world =
     (None, emit (Get_progress ''PL1'' None) (command (teardown_at 6) empty_world)) \<and>
   processPlaylist (teardown_at 6) demo_youtube demo_musicbrainz ''PL1'' watched_world \<noteq> None \<and>
   fst (the (processPlaylist (teardown_at 6) demo_youtube demo_musicbrainz ''PL1'' watched_world)) = None \<and>
   stops_at_cancel (trace_from watched_world
     (snd (the (processPlaylist (teardown_at 6) demo_youtube demo_musicbrainz ''PL1'' watched_world)))) \<and>
   map currentItem (progress_writes ''PL1'' (trace_from watched_world
     (snd (the (processPlaylist (teardown_at 6) demo_youtube demo_musicbrainz ''PL1'' watched_world))))) =
     [0, 1]"
proof -
  have g: "progresses (teardown_at 6 (tick empty_world) (db empty_world)) ''PL1'' = None"
    by (simp add: teardown_at_def empty_world_def)
  then have c: "cancelled (progresses (teardown_at 6 (tick empty_world) (db empty_world)) ''PL1'')"
    by (simp add: cancelled_def)
  have e: "map entry_of demo_items = entry_of (hd demo_items) # map entry_of (tl demo_items)"
    by (simp add: demo_items_def)
  have r: "processPlaylist (teardown_at 6) demo_youtube demo_musicbrainz ''PL1'' watched_world \<noteq> None"
    unfolding processPlaylist_returns by (simp add: playlistData_demo)
  from cooperative_cancellation [of "teardown_at 6" empty_world "''PL1''" demo_musicbrainz 3 0
      "entry_of (hd demo_items)" "map entry_of (tl demo_items)" "map entry_of demo_items"
      demo_youtube watched_world
      "fst (the (processPlaylist (teardown_at 6) demo_youtube demo_musicbrainz ''PL1'' watched_world))"
      "snd (the (processPlaylist (teardown_at 6) demo_youtube demo_musicbrainz ''PL1'' watched_world))"]
    c returned_pair [OF r]
  have 1: "enrichLoop (teardown_at 6) demo_musicbrainz ''PL1'' 3 0 (map entry_of demo_items)
       (map entry_of demo_items) empty_world =
     (None, emit (Get_progress ''PL1'' None) (command (teardown_at 6) empty_world))"
    and 2: "stops_at_cancel (trace_from watched_world
     (snd (the (processPlaylist (teardown_at 6) demo_youtube demo_musicbrainz ''PL1'' watched_world))))"
    unfolding g e [symmetric] by simp_all
  have 3: "fst (the (processPlaylist (teardown_at 6) demo_youtube demo_musicbrainz ''PL1'' watched_world)) = None"
    and 4: "map currentItem (progress_writes ''PL1'' (trace_from watched_world
     (snd (the (processPlaylist (teardown_at 6) demo_youtube demo_musicbrainz ''PL1'' watched_world))))) =
     [0, 1]"
    by (simp_all add: processPlaylist_def playlistData_demo demo_items_def entry_of_def
        enrichLoop.simps lookup_def demo_musicbrainz_def saveProgress_def saveCatalog_def
        getProgress_def Let_def teardown_at_def watched_world_def trace_from_def command_def
        emit_def kid_a_def item_update_def artistFormat_def)
  from c 1 r 3 2 4 show ?thesis by simp
qed

lemma entry_of_defaults:
  "score (entry_of y) = 0 \<and> title (entry_of y) = [] \<and> artist (entry_of y) = [] \<and>
   mbid (entry_of y) = []"
  by (simp add: entry_of_def)

text \<open>
  C8. In a run that completes, an entry whose source title is that of a removed or private
  video is, in the returned catalog and in every snapshot the run persists, the entry as
  it was fetched, with the default enrichment fields; no search is made with its title;
  and the Progress Record with the cursor just past it is written.
\<close>

theorem removed_entries_skipped:
  assumes "playlistData yt p w = Some (Some fetched, w1)"
    and "processPlaylist env yt mb p w = Some (Some final, w')"
    and "i < length fetched" and "removed (fetched ! i)"
  shows "final ! i = fetched ! i \<and>
     score (final ! i) = 0 \<and> title (final ! i) = [] \<and> artist (final ! i) = [] \<and>
     mbid (final ! i) = [] \<and>
     (\<forall>q c. Setex_catalog q c \<in> set (trace_from w w') \<longrightarrow> c ! i = fetched ! i) \<and>
     Search_releases (ytname (fetched ! i)) \<notin> set (trace_from w w') \<and>
     (\<exists>r\<in>set (progress_writes p (trace_from w w')).
        currentItem r = Suc i \<and> status r = ''processing'')"
  using assms(2)
proof (cases rule: processPlaylist_cases)
  case (Failed r w1)
  then show ?thesis by simp
next
  case (Cancelled cat w1)
  then show ?thesis by simp
next
  case (Done cat w1' c w2)
  with assms(1) have [simp]: "cat = fetched" "w1' = w1" "c = final" by simp_all
  let ?ws = "saveProgress env p 0 (length fetched) ''processing'' w1"
  from playlistData_log [OF assms(1)] obtain yts ys where
    y: "log w1 = log w @ yts" "\<forall>e\<in>set yts. \<exists>t. e = Youtube_list p t"
    and f: "fetched = map entry_of ys" by blast
  from log_saveProgress [of env p 0 "length fetched" "''processing''" w1]
  obtain k r0 where s0: "log ?ws = log w1 @ [Get_connections p k, Setex_progress p r0]" by blast
  from Done(3) have run: "enrichLoop env mb p (length fetched) 0 fetched fetched ?ws = (Some final, w2)"
    by simp
  have d: "drop 0 fetched = fetched" by simp
  from loop_snapshots [OF run d] obtain evs where
    l: "log w2 = log ?ws @ evs"
    and snaps: "\<forall>q c. Setex_catalog q c \<in> set evs \<longrightarrow> q = p \<and> keeps 0 fetched c"
    and fin: "keeps 0 fetched final" by blast
  from loop_searches [OF run] l have
    srch: "\<forall>s. Search_releases s \<in> set evs \<longrightarrow> s \<notin> set [''Deleted video'', ''Private video'']"
    by auto
  from loop_cursor [OF run d] l assms(3,4) have
    cur: "\<exists>r\<in>set (progress_writes p evs). currentItem r = Suc i \<and> status r = ''processing''"
    by auto
  from log_saveProgress [of env p "length fetched" "length fetched" "''completed''" w2] Done(5)
  obtain k' rn where sn: "log w' = log w2 @ [Get_connections p k', Setex_progress p rn]" by auto
  have t: "trace_from w w' = yts @ [Get_connections p k, Setex_progress p r0] @ evs @
      [Get_connections p k', Setex_progress p rn]"
    using y(1) s0 l sn by (simp add: trace_fromI)
  have 1: "final ! i = fetched ! i"
    using keepsD(3) [OF fin, of i] assms(3,4) by simp
  have "fetched ! i = entry_of (ys ! i)" using f assms(3) by simp
  with 1 have 2: "score (final ! i) = 0 \<and> title (final ! i) = [] \<and> artist (final ! i) = [] \<and>
     mbid (final ! i) = []" by (simp add: entry_of_defaults)
  have 3: "\<forall>q c. Setex_catalog q c \<in> set (trace_from w w') \<longrightarrow> c ! i = fetched ! i"
  proof (intro allI impI)
    fix q c assume "Setex_catalog q c \<in> set (trace_from w w')"
    with t y(2) have "Setex_catalog q c \<in> set evs" by auto
    with snaps have "keeps 0 fetched c" by blast
    from keepsD(3) [OF this, of i] assms(3,4) show "c ! i = fetched ! i" by simp
  qed
  have 4: "Search_releases (ytname (fetched ! i)) \<notin> set (trace_from w w')"
  proof
    assume "Search_releases (ytname (fetched ! i)) \<in> set (trace_from w w')"
    with t y(2) have "Search_releases (ytname (fetched ! i)) \<in> set evs" by auto
    with srch assms(4) show False by (simp add: removed_def)
  qed
  have 5: "\<exists>r\<in>set (progress_writes p (trace_from w w')). currentItem r = Suc i \<and> status r = ''processing''"
    using cur unfolding t by auto
  from 1 2 3 4 5 show ?thesis by simp
qed

theorem removed_entries_skipped_witness:
  "playlistData demo_youtube ''PL1'' watched_world =
     Some (Some (map entry_of demo_items), emit (Youtube_list ''PL1'' None) watched_world) \<and>
   removed (map entry_of demo_items ! 1) \<and>
   fst (the (processPlaylist quiet demo_youtube demo_musicbrainz ''PL1'' watched_world)) \<noteq> None \<and>
   the (fst (the (processPlaylist quiet demo_youtube demo_musicbrainz ''PL1'' watched_world))) ! 1 =
     entry_of (demo_items ! 1) \<and>
   score (the (fst (the (processPlaylist quiet demo_youtube demo_musicbrainz ''PL1'' watched_world))) ! 1) = 0 \<and>
   Search_releases ''Private video'' \<notin> set (trace_from watched_world
     (snd (the (processPlaylist quiet demo_youtube demo_musicbrainz ''PL1'' watched_world)))) \<and>
   score (the (fst (the (processPlaylist quiet demo_youtube demo_musicbrainz ''PL1'' watched_world))) ! 0) = 100"
proof -
  let ?run = "processPlaylist quiet demo_youtube demo_musicbrainz ''PL1'' watched_world"
  have r: "?run \<noteq> None"
    unfolding processPlaylist_returns by (simp add: playlistData_demo)
  have c: "fst (the ?run) \<noteq> None" and z: "score (the (fst (the ?run)) ! 0) = 100"
    by (simp_all add: processPlaylist_def playlistData_demo demo_items_def entry_of_def
        enrichLoop.simps lookup_def demo_musicbrainz_def saveProgress_def saveCatalog_def
        getProgress_def Let_def quiet_def watched_world_def command_def
        emit_def kid_a_def item_update_def artistFormat_def)
  from returned_pair [OF r] c have run: "?run = Some (Some (the (fst (the ?run))), snd (the ?run))"
    by (cases "fst (the ?run)") auto
  have i: "1 < length (map entry_of demo_items)" and rm: "removed (map entry_of demo_items ! 1)"
    and n: "ytname (map entry_of demo_items ! 1) = ''Private video''"
    and e: "map entry_of demo_items ! 1 = entry_of (demo_items ! 1)"
    by (simp_all add: demo_items_def removed_def entry_of_def)
  have n': "ytname (entry_of (demo_items ! 1)) = ''Private video''"
    by (simp add: demo_items_def entry_of_def)
  note skipped = removed_entries_skipped [OF playlistData_demo run i rm, unfolded e n']
  from skipped playlistData_demo [of "''PL1''" watched_world] rm c z
  show ?thesis by blast
qed

text \<open>
  C2 (as amended). When the check at entry \<open>i\<close> passes and the entry is skipped as a
  removed or private video, or its search returns (with a match or without one), the run
  persists the full catalog snapshot and then a Progress Record with
  \<open>currentItem = i + 1\<close> and status processing, sleeps, and only then goes on to the next
  entry.
\<close>

theorem persist_after_entry:
  assumes "\<not> cancelled (progresses (env (tick w) (db w)) p)"
    and "removed item \<and> item' = item \<or>
         \<not> removed item \<and> mb idx (ytname item) = Search_result rs \<and> item' = best rs item"
  shows "\<exists>w2 k r.
     enrichLoop env mb p n idx (item # rest) catalog w =
       enrichLoop env mb p n (Suc idx) rest (catalog[idx := item']) w2 \<and>
     trace_from w w2 =
       Get_progress p (progresses (env (tick w) (db w)) p) #
       (if removed item then [] else [Search_releases (ytname item)]) @
       [Setex_catalog p (catalog[idx := item']), Get_connections p k, Setex_progress p r, Sleep] \<and>
     r = \<lparr>status = ''processing'', currentItem = idx + 1, totalItems = n,
          activeConnections = (case k of None \<Rightarrow> 0 | Some v \<Rightarrow> v)\<rparr> \<and>
     progresses (db w2) p = Some r"
proof -
  let ?w1 = "if removed item then checked env p w
             else emit (Search_releases (ytname item)) (checked env p w)"
  let ?w2 = "persisted env p n idx (catalog[idx := item']) ?w1"
  let ?k = "connections (env (Suc (tick ?w1)) (db (saveCatalog env p (catalog[idx := item']) ?w1))) p"
  let ?r = "\<lparr>status = ''processing'', currentItem = idx + 1, totalItems = n,
          activeConnections = (case ?k of None \<Rightarrow> 0 | Some v \<Rightarrow> v)\<rparr>"
  have 1: "enrichLoop env mb p n idx (item # rest) catalog w =
       enrichLoop env mb p n (Suc idx) rest (catalog[idx := item']) ?w2"
    using assms
    by (auto simp: enrichLoop_Cons lookup_def removed_def checked_def persisted_def best_def)
  have 2: "log ?w2 = log w @ Get_progress p (progresses (env (tick w) (db w)) p) #
       (if removed item then [] else [Search_releases (ytname item)]) @
       [Setex_catalog p (catalog[idx := item']), Get_connections p ?k, Setex_progress p ?r, Sleep]"
    by (simp add: persisted_def saveProgress_def saveCatalog_def Let_def)
  have 3: "progresses (db ?w2) p = Some ?r"
    by (simp add: persisted_def saveProgress_def saveCatalog_def Let_def)
  from 1 trace_fromI [OF 2] 3 show ?thesis by blast
qed

theorem persist_after_entry_witness:
  "\<not> cancelled (progresses (quiet (tick streaming_world) (db streaming_world)) ''PL1'') \<and>
   removed (entry_of (demo_items ! 1)) \<and>
   (\<exists>w2 k r.
     enrichLoop quiet demo_musicbrainz ''PL1'' 3 1
         [entry_of (demo_items ! 1), entry_of (demo_items ! 2)] (map entry_of demo_items)
         streaming_world =
       enrichLoop quiet demo_musicbrainz ''PL1'' 3 2 [entry_of (demo_items ! 2)]
         ((map entry_of demo_items)[1 := entry_of (demo_items ! 1)]) w2 \<and>
     trace_from streaming_world w2 =
       [Get_progress ''PL1'' (progresses (db streaming_world) ''PL1''),
        Setex_catalog ''PL1'' ((map entry_of demo_items)[1 := entry_of (demo_items ! 1)]),
        Get_connections ''PL1'' k, Setex_progress ''PL1'' r, Sleep] \<and>
     r = \<lparr>status = ''processing'', currentItem = 2, totalItems = 3,
          activeConnections = (case k of None \<Rightarrow> 0 | Some v \<Rightarrow> v)\<rparr> \<and>
     progresses (db w2) ''PL1'' = Some r)"
proof -
  have c: "\<not> cancelled (progresses (quiet (tick streaming_world) (db streaming_world)) ''PL1'')"
    by (simp add: cancelled_def quiet_def streaming_world_def)
  have rm: "removed (entry_of (demo_items ! 1))"
    by (simp add: removed_def entry_of_def demo_items_def)
  then have d: "removed (entry_of (demo_items ! 1)) \<and> entry_of (demo_items ! 1) = entry_of (demo_items ! 1) \<or>
      \<not> removed (entry_of (demo_items ! 1)) \<and>
      demo_musicbrainz 1 (ytname (entry_of (demo_items ! 1))) = Search_result [] \<and>
      entry_of (demo_items ! 1) = best [] (entry_of (demo_items ! 1))" by simp
  from persist_after_entry [where env = quiet and w = streaming_world and p = "''PL1''"
      and item = "entry_of (demo_items ! 1)" and item' = "entry_of (demo_items ! 1)"
      and mb = demo_musicbrainz and idx = 1 and rs = "[]" and n = 3
      and rest = "[entry_of (demo_items ! 2)]" and catalog = "map entry_of demo_items", OF c d]
    c rm
  show ?thesis by (simp add: quiet_def numeral_2_eq_2)
qed

text \<open>
  C2 as stated fails for an entry whose search raises: the handler of the inner
  \<^verbatim>\<open>try\<close> goes on to the next entry, and neither the snapshot nor a Progress Record is
  written in between. Here the search for entry 0 raises; the next event is the check of
  entry 1, which still reads the record with \<open>currentItem = 0\<close>, and no record with
  \<open>currentItem = 1\<close> is ever written.
\<close>

theorem persist_after_entry_counterexample:
  "failing_musicbrainz 0 ''Kid A (Full Album) 2000'' = Search_raises \<and>
   take 6 (trace_from watched_world
     (snd (the (processPlaylist quiet demo_youtube failing_musicbrainz ''PL1'' watched_world)))) =
     [Youtube_list ''PL1'' None,
      Get_connections ''PL1'' (Some 1),
      Setex_progress ''PL1''
        \<lparr>status = ''processing'', currentItem = 0, totalItems = 3, activeConnections = 1\<rparr>,
      Get_progress ''PL1''
        (Some \<lparr>status = ''processing'', currentItem = 0, totalItems = 3, activeConnections = 1\<rparr>),
      Search_releases ''Kid A (Full Album) 2000'',
      Get_progress ''PL1''
        (Some \<lparr>status = ''processing'', currentItem = 0, totalItems = 3, activeConnections = 1\<rparr>)] \<and>
   map currentItem (progress_writes ''PL1'' (trace_from watched_world
     (snd (the (processPlaylist quiet demo_youtube failing_musicbrainz ''PL1'' watched_world))))) =
     [0, 2, 3, 3]"
  by (simp add: processPlaylist_def playlistData_demo demo_items_def entry_of_def enrichLoop.simps
     lookup_def failing_musicbrainz_def saveProgress_def saveCatalog_def getProgress_def Let_def
     quiet_def watched_world_def trace_from_def command_def emit_def)

subsection \<open>The start-run handler\<close>

lemma db_lookup [simp]: "db (snd (lookup mb idx item w)) = db w"
  by (simp add: lookup_def split: mb_reply.splits)

lemma loop_quiet:
  assumes "connections (db w) p = Some k" and "0 < k"
    and "progresses (db w) p = Some r" and "0 < activeConnections r"
  shows "\<exists>c w'. enrichLoop quiet mb p n idx todo catalog w = (Some c, w') \<and>
           connections (db w') p = Some k \<and>
           (\<exists>r'. progresses (db w') p = Some r' \<and> 0 < activeConnections r')"
  using assms
proof (induction todo arbitrary: idx catalog w r)
  case Nil
  then show ?case by simp
next
  case (Cons item rest)
  let ?w1 = "emit (Get_progress p (progresses (quiet (tick w) (db w)) p)) (command quiet w)"
  have live: "\<not> cancelled (progresses (quiet (tick w) (db w)) p)"
    using Cons.prems by (simp add: quiet_def cancelled_def)
  have db1: "db ?w1 = db w" by (simp add: quiet_def)
  obtain it w2 where lk: "lookup mb idx item ?w1 = (it, w2)" by (cases "lookup mb idx item ?w1")
  then have db2: "db w2 = db w" using db_lookup [of mb idx item ?w1] db1 by simp
  show ?case
  proof (cases it)
    case None
    from Cons.IH [of w2 r "Suc idx" catalog] Cons.prems db2 live lk None
    show ?thesis by (simp add: enrichLoop_Cons)
  next
    case (Some item')
    let ?w5 = "emit Sleep (saveProgress quiet p (idx + 1) n ''processing''
        (saveCatalog quiet p (catalog[idx := item']) w2))"
    have c5: "connections (db ?w5) p = Some k"
      using Cons.prems(1) db2 by (simp add: saveProgress_def saveCatalog_def Let_def quiet_def)
    have p5: "progresses (db ?w5) p = Some \<lparr>status = ''processing'', currentItem = idx + 1,
        totalItems = n, activeConnections = k\<rparr>"
      using Cons.prems(1) db2 by (simp add: saveProgress_def saveCatalog_def Let_def quiet_def)
    from Cons.IH [OF c5 Cons.prems(2) p5, of "Suc idx" "catalog[idx := item']"] Cons.prems(2)
      live lk Some
    show ?thesis by (simp add: enrichLoop_Cons)
  qed
qed

lemma run_quiet:
  assumes "connections (db w) p = Some k" and "0 < k"
    and "playlistData yt p w = Some (Some cat, w1)" and "cat \<noteq> []"
  shows "\<exists>c w'. processPlaylist quiet yt mb p w = Some (Some c, w') \<and>
           progresses (db w') p = Some \<lparr>status = ''completed'', currentItem = length cat,
              totalItems = length cat, activeConnections = k\<rparr>"
proof -
  let ?ws = "saveProgress quiet p 0 (length cat) ''processing'' w1"
  from playlistData_log [OF assms(3)] have db1: "db w1 = db w" by blast
  have c: "connections (db ?ws) p = Some k"
    using assms(1) db1 by (simp add: saveProgress_def Let_def quiet_def)
  have r: "progresses (db ?ws) p = Some \<lparr>status = ''processing'', currentItem = 0,
        totalItems = length cat, activeConnections = k\<rparr>"
    using assms(1) db1 by (simp add: saveProgress_def Let_def quiet_def)
  from loop_quiet [OF c assms(2) r, of mb "length cat" 0 cat cat] assms(2)
  obtain c' w2 where l: "enrichLoop quiet mb p (length cat) 0 cat cat ?ws = (Some c', w2)"
    and c2: "connections (db w2) p = Some k" by auto
  have "progresses (db (saveProgress quiet p (length cat) (length cat) ''completed'' w2)) p =
      Some \<lparr>status = ''completed'', currentItem = length cat,
              totalItems = length cat, activeConnections = k\<rparr>"
    using c2 by (simp add: saveProgress_def Let_def quiet_def)
  with l assms(3,4) show ?thesis by (simp add: processPlaylist_def)
qed

lemma completed_last:
  assumes "processPlaylist env yt mb p w = Some (Some c, w')"
  shows "\<exists>r. last (log w') = Setex_progress p r \<and> status r = ''completed''"
  using assms
proof (cases rule: processPlaylist_cases)
  case (Done cat w1 c w2)
  from log_saveProgress [of env p "length cat" "length cat" "''completed''" w2] Done(5)
  show ?thesis by auto
qed simp_all

lemma log_incrementConnections:
  "log (snd (incrementConnections env p w)) =
     log w @ [Incr_connections p (fst (incrementConnections env p w))]"
  by (simp add: incrementConnections_def Let_def)

lemma processPlaylist_log:
  assumes "processPlaylist env yt mb p w = Some (res, w')"
  shows "\<exists>evs. log w' = log w @ evs"
  using assms
proof (cases rule: processPlaylist_cases)
  case (Failed r w1)
  from playlistData_log [OF Failed(1)] Failed(4) show ?thesis
    by (auto simp: log_clearProgress)
next
  case (Cancelled cat w1)
  from playlistData_log [OF Cancelled(1)] loop_cancel [OF Cancelled(3)]
    log_saveProgress [of env p 0 "length cat" "''processing''" w1]
  show ?thesis by auto
next
  case (Done cat w1 c w2)
  from playlistData_log [OF Done(1)] loop_cancel [OF Done(3)]
    log_saveProgress [of env p 0 "length cat" "''processing''" w1]
    log_saveProgress [of env p "length cat" "length cat" "''completed''" w2] Done(5)
  show ?thesis by auto
qed

text \<open>
  C1 (as amended). For a start-run request whose identifier has no completed cached
  result, the handler clears the state, attaches a viewer and runs the enrichment run to
  its end before it returns \<open>{success, playlistId}\<close>, provided the playlist fetch returns:
  everything the run does precedes the response. When the run completes, the completed
  Progress Record is the last thing written before the response; with no interference
  and a non-empty playlist the run does complete.
\<close>

theorem start_run_after_run:
  assumes "filterPlaylistId url = Inr p"
    and "getCatalog env p w = (c, w1)" and "getProgress env p w1 = (pr, w2)"
    and "c = None \<or> c = Some [] \<or> map_option status pr \<noteq> Some ''completed''"
    and "processPlaylist env yt mb p
           (snd (incrementConnections env p (clearProgress env p w2))) = Some (res, w3)"
  shows "startProcess env yt mb (Some url) w = Some (Started_json p, w3) \<and>
     trace_from w w3 =
       [Get_catalog p c, Get_progress p pr, Delete_progress p, Delete_connections p,
        Delete_catalog p,
        Incr_connections p (fst (incrementConnections env p (clearProgress env p w2)))] @
       trace_from (snd (incrementConnections env p (clearProgress env p w2))) w3 \<and>
     (res \<noteq> None \<longrightarrow>
        (\<exists>r. last (trace_from w w3) = Setex_progress p r \<and> status r = ''completed'')) \<and>
     (env = quiet \<and> (\<exists>cat wf. playlistData yt p
           (snd (incrementConnections env p (clearProgress env p w2))) = Some (Some cat, wf) \<and>
           cat \<noteq> []) \<longrightarrow>
        res \<noteq> None \<and> map_option status (progresses (db w3) p) = Some ''completed'')"
proof -
  let ?w4 = "snd (incrementConnections env p (clearProgress env p w2))"
  have 1: "startProcess env yt mb (Some url) w = Some (Started_json p, w3)"
    using assms by (auto simp: startProcess_def)
  from processPlaylist_log [OF assms(5)] obtain evs where evs: "log w3 = log ?w4 @ evs" by blast
  have l1: "log w1 = log w @ [Get_catalog p c]"
    using assms(2) by (auto simp: getCatalog_def Let_def)
  have l2: "log w2 = log w1 @ [Get_progress p pr]"
    using assms(3) by (auto simp: getProgress_def Let_def)
  have l4: "log ?w4 = log w @ [Get_catalog p c, Get_progress p pr, Delete_progress p,
      Delete_connections p, Delete_catalog p,
      Incr_connections p (fst (incrementConnections env p (clearProgress env p w2)))]"
    by (simp add: log_incrementConnections log_clearProgress l1 l2)
  have 2: "trace_from w w3 =
       [Get_catalog p c, Get_progress p pr, Delete_progress p, Delete_connections p,
        Delete_catalog p,
        Incr_connections p (fst (incrementConnections env p (clearProgress env p w2)))] @
       trace_from ?w4 w3"
    using evs l4 by (simp add: trace_from_def)
  have 3: "\<exists>r. last (trace_from w w3) = Setex_progress p r \<and> status r = ''completed''"
    if "res \<noteq> None"
  proof -
    from that obtain cat where "res = Some cat" by auto
    with assms(5) completed_last [of env yt mb p ?w4 cat w3]
    obtain r where r: "last (log w3) = Setex_progress p r" "status r = ''completed''" by auto
    from r(1) evs l4 have "evs \<noteq> []" by (cases evs) auto
    with r evs l4 show ?thesis by (simp add: trace_from_def)
  qed
  have 4: "res \<noteq> None \<and> map_option status (progresses (db w3) p) = Some ''completed''"
    if q: "env = quiet" and f: "playlistData yt p ?w4 = Some (Some cat, wf)" "cat \<noteq> []" for cat wf
  proof -
    have "connections (db ?w4) p = Some 1"
      using q by (simp add: incrementConnections_def clearProgress_def clearCatalog_def Let_def
          quiet_def)
    from run_quiet [OF this _ f, of mb] assms(5) q show ?thesis by auto
  qed
  from 1 2 3 4 show ?thesis by blast
qed

lemma demo_url_id: "filterPlaylistId demo_url = Inr ''PL1''"
  by (simp add: demo_url_def filterPlaylistId_def match_here_def id_char_def)

theorem start_run_after_run_witness:
  "filterPlaylistId demo_url = Inr ''PL1'' \<and>
   fst (getCatalog quiet ''PL1'' empty_world) = None \<and>
   startProcess quiet demo_youtube demo_musicbrainz (Some demo_url) empty_world \<noteq> None \<and>
   fst (the (startProcess quiet demo_youtube demo_musicbrainz (Some demo_url) empty_world)) =
     Started_json ''PL1'' \<and>
   map_option status (progresses (db
     (snd (the (startProcess quiet demo_youtube demo_musicbrainz (Some demo_url) empty_world))))
     ''PL1'') = Some ''completed''"
proof -
  let ?w2 = "snd (getProgress quiet ''PL1'' (snd (getCatalog quiet ''PL1'' empty_world)))"
  let ?w4 = "snd (incrementConnections quiet ''PL1'' (clearProgress quiet ''PL1'' ?w2))"
  let ?run = "processPlaylist quiet demo_youtube demo_musicbrainz ''PL1'' ?w4"
  have c: "fst (getCatalog quiet ''PL1'' empty_world) = None"
    by (simp add: getCatalog_def Let_def quiet_def empty_world_def)
  have g1: "getCatalog quiet ''PL1'' empty_world = (None, snd (getCatalog quiet ''PL1'' empty_world))"
    using c by (cases "getCatalog quiet ''PL1'' empty_world") simp
  have g2: "getProgress quiet ''PL1'' (snd (getCatalog quiet ''PL1'' empty_world)) =
      (fst (getProgress quiet ''PL1'' (snd (getCatalog quiet ''PL1'' empty_world))), ?w2)"
    by simp
  have r: "?run \<noteq> None"
    unfolding processPlaylist_returns by (simp add: playlistData_demo)
  have f: "\<exists>cat wf. playlistData demo_youtube ''PL1'' ?w4 = Some (Some cat, wf) \<and> cat \<noteq> []"
    by (simp add: playlistData_demo demo_items_def)
  from start_run_after_run [OF demo_url_id g1 g2 _ returned_pair [OF r]] f
  have "startProcess quiet demo_youtube demo_musicbrainz (Some demo_url) empty_world =
      Some (Started_json ''PL1'', snd (the ?run))"
    and "map_option status (progresses (db (snd (the ?run))) ''PL1'') = Some ''completed''"
    by blast+
  with demo_url_id c show ?thesis by simp
qed

text \<open>
  C1 as stated fails: \<open>startProcess\<close> calls \<open>processPlaylist\<close> and returns after it. For
  the demo playlist the store that exists when the response is produced already holds the
  completed Progress Record, written after the three processing ones.
\<close>

theorem start_run_counterexample:
  "fst (the (startProcess quiet demo_youtube demo_musicbrainz (Some demo_url) empty_world)) =
     Started_json ''PL1'' \<and>
   progresses (db
     (snd (the (startProcess quiet demo_youtube demo_musicbrainz (Some demo_url) empty_world))))
     ''PL1'' =
     Some \<lparr>status = ''completed'', currentItem = 3, totalItems = 3, activeConnections = 1\<rparr> \<and>
   map status (progress_writes ''PL1'' (log
     (snd (the (startProcess quiet demo_youtube demo_musicbrainz (Some demo_url) empty_world))))) =
     [''processing'', ''processing'', ''processing'', ''processing'', ''completed'']"
  by (simp add: startProcess_def demo_url_id processPlaylist_def playlistData_demo demo_items_def
      entry_of_def enrichLoop.simps lookup_def demo_musicbrainz_def saveProgress_def
      saveCatalog_def getProgress_def getCatalog_def clearProgress_def clearCatalog_def
      incrementConnections_def Let_def quiet_def empty_world_def command_def emit_def
      kid_a_def item_update_def artistFormat_def)

lemma run_snapshots_nonempty:
  assumes "processPlaylist env yt mb p w = Some (res, w')"
    and "Setex_catalog q c \<in> set (trace_from w w')"
  shows "c \<noteq> []"
  using assms(1)
proof (cases rule: processPlaylist_cases)
  case (Failed r w1)
  from playlistData_log [OF Failed(1)] obtain yts where
    "log w1 = log w @ yts" "\<forall>e\<in>set yts. \<exists>t. e = Youtube_list p t" by blast
  with Failed(4)
  have "trace_from w w' = yts @ [Delete_progress p, Delete_connections p, Delete_catalog p]"
    and "Setex_catalog q c \<notin> set yts"
    by (auto simp: trace_fromI log_clearProgress)
  with assms(2) show ?thesis by simp
next
  case (Cancelled cat w1)
  from playlistData_log [OF Cancelled(1)] obtain yts where
    y: "log w1 = log w @ yts" "\<forall>e\<in>set yts. \<exists>t. e = Youtube_list p t" by blast
  from log_saveProgress [of env p 0 "length cat" "''processing''" w1]
  obtain k r0 where s0: "log (saveProgress env p 0 (length cat) ''processing'' w1) =
      log w1 @ [Get_connections p k, Setex_progress p r0]" by blast
  have d: "drop 0 cat = cat" by simp
  from loop_snapshots [OF Cancelled(3) d] obtain evs where
    l: "log w' = log (saveProgress env p 0 (length cat) ''processing'' w1) @ evs"
    and snaps: "\<forall>q c. Setex_catalog q c \<in> set evs \<longrightarrow> q = p \<and> keeps 0 cat c" by blast
  have "trace_from w w' = yts @ [Get_connections p k, Setex_progress p r0] @ evs"
    using y(1) s0 l by (simp add: trace_fromI)
  with assms(2) y(2) have "Setex_catalog q c \<in> set evs" by auto
  with snaps have "keeps 0 cat c" by blast
  from keepsD(1) [OF this] Cancelled(2) show ?thesis by auto
next
  case (Done cat w1 c' w2)
  from playlistData_log [OF Done(1)] obtain yts where
    y: "log w1 = log w @ yts" "\<forall>e\<in>set yts. \<exists>t. e = Youtube_list p t" by blast
  from log_saveProgress [of env p 0 "length cat" "''processing''" w1]
  obtain k r0 where s0: "log (saveProgress env p 0 (length cat) ''processing'' w1) =
      log w1 @ [Get_connections p k, Setex_progress p r0]" by blast
  have d: "drop 0 cat = cat" by simp
  from loop_snapshots [OF Done(3) d] obtain evs where
    l: "log w2 = log (saveProgress env p 0 (length cat) ''processing'' w1) @ evs"
    and snaps: "\<forall>q c. Setex_catalog q c \<in> set evs \<longrightarrow> q = p \<and> keeps 0 cat c" by blast
  from log_saveProgress [of env p "length cat" "length cat" "''completed''" w2] Done(5)
  obtain k' rn where sn: "log w' = log w2 @ [Get_connections p k', Setex_progress p rn]" by auto
  have "trace_from w w' = yts @ [Get_connections p k, Setex_progress p r0] @ evs @
      [Get_connections p k', Setex_progress p rn]"
    using y(1) s0 l sn by (simp add: trace_fromI)
  with assms(2) y(2) have "Setex_catalog q c \<in> set evs" by auto
  with snaps have "keeps 0 cat c" by blast
  from keepsD(1) [OF this] Done(2) show ?thesis by auto
qed

text \<open>
  C5. When the handler reads a Catalog snapshot and a Progress Record with status
  completed for the identifier, it answers with that snapshot and status completed. All
  it does is the two reads and the increment of the Viewer Count: nothing is deleted or
  written besides, and neither the playlist API nor the metadata search is called,
  whatever they are. A snapshot is one that a run has written: such a snapshot is never
  empty (the handler's test reads an empty list as no snapshot).
\<close>

theorem cached_result_served:
  "(filterPlaylistId url = Inr p \<and> getCatalog env p w = (Some cat, w1) \<and> cat \<noteq> [] \<and>
    getProgress env p w1 = (Some r, w2) \<and> status r = ''completed'' \<longrightarrow>
     startProcess env yt mb (Some url) w =
       Some (Completed_json p cat, snd (incrementConnections env p w2)) \<and>
     trace_from w (snd (incrementConnections env p w2)) =
       [Get_catalog p (Some cat), Get_progress p (Some r),
        Incr_connections p (fst (incrementConnections env p w2))] \<and>
     fst (incrementConnections env p w2) =
       (case connections (env (tick w2) (db w2)) p of None \<Rightarrow> 0 | Some k \<Rightarrow> k) + 1 \<and>
     connections (db (snd (incrementConnections env p w2))) p =
       Some (fst (incrementConnections env p w2)) \<and>
     catalogs (db (snd (incrementConnections env p w2))) = catalogs (env (tick w2) (db w2)) \<and>
     progresses (db (snd (incrementConnections env p w2))) = progresses (env (tick w2) (db w2))) \<and>
   (processPlaylist env' yt' mb' p' w0 = Some (res, w') \<and>
    Setex_catalog q c \<in> set (trace_from w0 w') \<longrightarrow> c \<noteq> [])"
proof (intro conjI impI)
  assume a: "filterPlaylistId url = Inr p \<and> getCatalog env p w = (Some cat, w1) \<and> cat \<noteq> [] \<and>
    getProgress env p w1 = (Some r, w2) \<and> status r = ''completed''"
  then show "startProcess env yt mb (Some url) w =
       Some (Completed_json p cat, snd (incrementConnections env p w2))"
    by (simp add: startProcess_def)
  from a have l1: "log w1 = log w @ [Get_catalog p (Some cat)]"
    by (auto simp: getCatalog_def Let_def)
  from a have l2: "log w2 = log w1 @ [Get_progress p (Some r)]"
    by (auto simp: getProgress_def Let_def)
  show "trace_from w (snd (incrementConnections env p w2)) =
       [Get_catalog p (Some cat), Get_progress p (Some r),
        Incr_connections p (fst (incrementConnections env p w2))]"
    by (simp add: trace_from_def log_incrementConnections l1 l2)
next
  assume "processPlaylist env' yt' mb' p' w0 = Some (res, w') \<and>
    Setex_catalog q c \<in> set (trace_from w0 w')"
  then show "c \<noteq> []" using run_snapshots_nonempty by blast
qed (simp_all add: incrementConnections_def Let_def)

theorem cached_result_served_witness:
  "filterPlaylistId demo_url = Inr ''PL1'' \<and>
   getCatalog quiet ''PL1'' finished_world =
     (Some (map entry_of demo_items), snd (getCatalog quiet ''PL1'' finished_world)) \<and>
   startProcess quiet demo_youtube demo_musicbrainz (Some demo_url) finished_world =
     Some (Completed_json ''PL1'' (map entry_of demo_items),
           snd (incrementConnections quiet ''PL1''
             (snd (getProgress quiet ''PL1'' (snd (getCatalog quiet ''PL1'' finished_world)))))) \<and>
   trace_from finished_world (snd (incrementConnections quiet ''PL1''
             (snd (getProgress quiet ''PL1'' (snd (getCatalog quiet ''PL1'' finished_world)))))) =
     [Get_catalog ''PL1'' (Some (map entry_of demo_items)),
      Get_progress ''PL1''
        (Some \<lparr>status = ''completed'', currentItem = 3, totalItems = 3, activeConnections = 1\<rparr>),
      Incr_connections ''PL1'' 1]"
proof -
  let ?w1 = "snd (getCatalog quiet ''PL1'' finished_world)"
  let ?r = "\<lparr>status = ''completed'', currentItem = 3, totalItems = 3, activeConnections = 1\<rparr>"
  have g1: "getCatalog quiet ''PL1'' finished_world = (Some (map entry_of demo_items), ?w1)"
    by (simp add: getCatalog_def Let_def quiet_def finished_world_def)
  have ne: "map entry_of demo_items \<noteq> []" by (simp add: demo_items_def)
  have g2: "getProgress quiet ''PL1'' ?w1 = (Some ?r, snd (getProgress quiet ''PL1'' ?w1))"
    by (simp add: getProgress_def getCatalog_def Let_def quiet_def finished_world_def)
  have st: "status ?r = ''completed''" by simp
  have n: "fst (incrementConnections quiet ''PL1'' (snd (getProgress quiet ''PL1'' ?w1))) = 1"
    by (simp add: incrementConnections_def getProgress_def getCatalog_def Let_def quiet_def
        finished_world_def)
  from cached_result_served [where url = demo_url and p = "''PL1''" and env = quiet
      and w = finished_world and cat = "map entry_of demo_items" and ?w1.0 = ?w1 and r = ?r
      and ?w2.0 = "snd (getProgress quiet ''PL1'' ?w1)" and yt = demo_youtube
      and mb = demo_musicbrainz]
    demo_url_id g1 ne g2 st
  have "startProcess quiet demo_youtube demo_musicbrainz (Some demo_url) finished_world =
     Some (Completed_json ''PL1'' (map entry_of demo_items),
           snd (incrementConnections quiet ''PL1'' (snd (getProgress quiet ''PL1'' ?w1))))"
    and "trace_from finished_world (snd (incrementConnections quiet ''PL1''
             (snd (getProgress quiet ''PL1'' ?w1)))) =
     [Get_catalog ''PL1'' (Some (map entry_of demo_items)), Get_progress ''PL1'' (Some ?r),
      Incr_connections ''PL1''
        (fst (incrementConnections quiet ''PL1'' (snd (getProgress quiet ''PL1'' ?w1))))]"
    by blast+
  with demo_url_id g1 show ?thesis unfolding n by blast
qed

end
